theory Spec2Isabelle
  imports Complex_Main "HOL-Library.Log_Nat"
begin

section \<open>CashVault background jobs: recurring transactions and budget alerts\<close>

text \<open>
  A shallow embedding of \<^verbatim>\<open>src/lib/inngest/functions.js\<close>: the utility functions
  \<^verbatim>\<open>isNewMonth\<close>, \<^verbatim>\<open>isTransactionDue\<close> and \<^verbatim>\<open>calculateNextRecurringDate\<close>, the
  database transaction of \<^verbatim>\<open>processRecurringTransaction\<close>, the query of
  \<^verbatim>\<open>triggerRecurringTransactions\<close> and the alert condition of \<^verbatim>\<open>checkBudgetAlerts\<close>.

  Modelling conventions.
  \<^item> A JavaScript \<^verbatim>\<open>Date\<close> is its time value, an \<^typ>\<open>int\<close> of milliseconds since the
    epoch. The calendar methods follow the algorithms of ECMAScript (Day, DayFromYear,
    YearFromTime, MonthFromTime, DateFromTime, MakeDay, MakeDate). The local time zone
    is taken to be UTC, and the clipping of time values beyond 8.64e15 ms is left out.
  \<^item> Every \<^verbatim>\<open>new Date()\<close> of one run reads the same instant, passed as \<open>now\<close>.
  \<^item> Decimal amounts are \<^typ>\<open>rat\<close>. A finite JavaScript number is the rational value of a
    binary64 double: \<^verbatim>\<open>toNumber()\<close>, the conversion of a decimal to a number, the division
    and the multiplication round their exact result to 53 significant bits, ties to even.
    The exponent range of binary64 (magnitudes from 2 to the power -1074 up to 2 to the
    power 1024) is left out: no amount overflows or underflows, so the only non-finite
    numbers that arise are the results of a division by zero.
  \<^item> A nullable column is an \<^typ>\<open>'a option\<close>, \<open>None\<close> for \<^verbatim>\<open>null\<close>.
  \<^item> The database is a record of its rows; a failed \<^verbatim>\<open>db.$transaction\<close> rolls back,
    so an error carries no new store.
\<close>

subsection \<open>ECMAScript time values and the calendar\<close>

definition msPerDay :: int where
  "msPerDay = 86400000"

definition Day :: "int \<Rightarrow> int" where
  "Day t = t div msPerDay"

definition TimeWithinDay :: "int \<Rightarrow> int" where
  "TimeWithinDay t = t mod msPerDay"

definition DaysInYear :: "int \<Rightarrow> int" where
  "DaysInYear y =
     (if y mod 4 \<noteq> 0 then 365
      else if y mod 100 \<noteq> 0 then 366
      else if y mod 400 \<noteq> 0 then 365
      else 366)"

definition DayFromYear :: "int \<Rightarrow> int" where
  "DayFromYear y =
     365 * (y - 1970) + (y - 1969) div 4 - (y - 1901) div 100 + (y - 1601) div 400"

text \<open>
  ECMAScript specifies \<open>YearFromTime t\<close> as the largest year \<open>y\<close> whose first day is not
  after \<open>t\<close>. The definition computes it from an estimate that is off by at most one;
  lemma \<open>YearFromTime_spec\<close> and lemma \<open>YearFromTime_unique\<close> below show that it
  is that year.
\<close>

definition YearFromTime :: "int \<Rightarrow> int" where
  "YearFromTime t =
     (let d = Day t; y = 1970 + (400 * d) div 146097
      in if d < DayFromYear y then y - 1
         else if DayFromYear (y + 1) \<le> d then y + 1
         else y)"

definition InLeapYear :: "int \<Rightarrow> int" where
  "InLeapYear t = (if DaysInYear (YearFromTime t) = 366 then 1 else 0)"

definition DayWithinYear :: "int \<Rightarrow> int" where
  "DayWithinYear t = Day t - DayFromYear (YearFromTime t)"

definition MonthFromTime :: "int \<Rightarrow> int" where
  "MonthFromTime t =
     (let d = DayWithinYear t; l = InLeapYear t
      in if d < 31 then 0
         else if d < 59 + l then 1
         else if d < 90 + l then 2
         else if d < 120 + l then 3
         else if d < 151 + l then 4
         else if d < 181 + l then 5
         else if d < 212 + l then 6
         else if d < 243 + l then 7
         else if d < 273 + l then 8
         else if d < 304 + l then 9
         else if d < 334 + l then 10
         else 11)"

definition DateFromTime :: "int \<Rightarrow> int" where
  "DateFromTime t =
     (let d = DayWithinYear t; l = InLeapYear t; m = MonthFromTime t
      in if m = 0 then d + 1
         else if m = 1 then d - 30
         else if m = 2 then d - 58 - l
         else if m = 3 then d - 89 - l
         else if m = 4 then d - 119 - l
         else if m = 5 then d - 150 - l
         else if m = 6 then d - 180 - l
         else if m = 7 then d - 211 - l
         else if m = 8 then d - 242 - l
         else if m = 9 then d - 272 - l
         else if m = 10 then d - 303 - l
         else d - 333 - l)"

text \<open>The number of days of a year before its month \<open>mn\<close> (0 is January); \<open>l\<close> is 1 in a leap year.\<close>

definition DaysBeforeMonth :: "int \<Rightarrow> int \<Rightarrow> int" where
  "DaysBeforeMonth l mn =
     (if mn = 0 then 0
      else if mn = 1 then 31
      else if mn = 2 then 59 + l
      else if mn = 3 then 90 + l
      else if mn = 4 then 120 + l
      else if mn = 5 then 151 + l
      else if mn = 6 then 181 + l
      else if mn = 7 then 212 + l
      else if mn = 8 then 243 + l
      else if mn = 9 then 273 + l
      else if mn = 10 then 304 + l
      else 334 + l)"

text \<open>
  \<open>MakeDay year month date\<close>: the day number of the first day of month \<open>month mod 12\<close> of
  year \<open>year + month div 12\<close>, plus \<open>date - 1\<close>. Months and dates out of range carry over.
\<close>

definition MakeDay :: "int \<Rightarrow> int \<Rightarrow> int \<Rightarrow> int" where
  "MakeDay year month date =
     (let ym = year + month div 12;
          mn = month mod 12;
          l = (if DaysInYear ym = 366 then 1 else 0)
      in DayFromYear ym + DaysBeforeMonth l mn + date - 1)"

definition MakeDate :: "int \<Rightarrow> int \<Rightarrow> int" where
  "MakeDate day time = day * msPerDay + time"

subsection \<open>The methods of Date that the jobs call\<close>

definition getDate :: "int \<Rightarrow> int" where
  "getDate t = DateFromTime t"

definition getMonth :: "int \<Rightarrow> int" where
  "getMonth t = MonthFromTime t"

definition getFullYear :: "int \<Rightarrow> int" where
  "getFullYear t = YearFromTime t"

text \<open>The setters return the new time value of the date they are called on.\<close>

definition setDate :: "int \<Rightarrow> int \<Rightarrow> int" where
  "setDate t dt = MakeDate (MakeDay (YearFromTime t) (MonthFromTime t) dt) (TimeWithinDay t)"

definition setMonth :: "int \<Rightarrow> int \<Rightarrow> int" where
  "setMonth t m = MakeDate (MakeDay (YearFromTime t) m (DateFromTime t)) (TimeWithinDay t)"

definition setFullYear :: "int \<Rightarrow> int \<Rightarrow> int" where
  "setFullYear t y = MakeDate (MakeDay y (MonthFromTime t) (DateFromTime t)) (TimeWithinDay t)"

text \<open>\<^verbatim>\<open>Date.UTC(year, month, date)\<close>, midnight of a calendar day, for writing instants down.\<close>

definition DateUTC :: "int \<Rightarrow> int \<Rightarrow> int \<Rightarrow> int" where
  "DateUTC year month date = MakeDate (MakeDay year month date) 0"

text \<open>\<^verbatim>\<open>new Date(value)\<close> on a nullable timestamp column: \<^verbatim>\<open>null\<close> converts to the epoch.\<close>

definition newDate :: "int option \<Rightarrow> int" where
  "newDate v = (case v of None \<Rightarrow> 0 | Some t \<Rightarrow> t)"

subsection \<open>Calendar vocabulary for the statements\<close>

definition DaysInMonth :: "int \<Rightarrow> int \<Rightarrow> int" where
  "DaysInMonth y mn =
     (if mn = 1 then (if DaysInYear y = 366 then 29 else 28)
      else if mn = 3 \<or> mn = 5 \<or> mn = 8 \<or> mn = 10 then 30
      else 31)"

definition monthIndex :: "int \<Rightarrow> int" where
  "monthIndex t = 12 * YearFromTime t + MonthFromTime t"

text \<open>A calendar date as the triple (year, month, date) that the getters report.\<close>

definition civil :: "int \<Rightarrow> int \<times> int \<times> int" where
  "civil t = (getFullYear t, getMonth t, getDate t)"

text \<open>
  The calendar reading of "one month later" and "one year later": step the month (or the
  year) and keep the date; a date past the end of the target month overflows into the
  month after it by the number of days in excess.
\<close>

definition carryDate :: "int \<times> int \<times> int \<Rightarrow> int \<times> int \<times> int" where
  "carryDate c =
     (case c of (y, m, d) \<Rightarrow>
        if d \<le> DaysInMonth y m then (y, m, d) else (y, m + 1, d - DaysInMonth y m))"

definition plusOneMonth :: "int \<times> int \<times> int \<Rightarrow> int \<times> int \<times> int" where
  "plusOneMonth c =
     (case c of (y, m, d) \<Rightarrow> carryDate (if m = 11 then (y + 1, 0, d) else (y, m + 1, d)))"

definition plusOneYear :: "int \<times> int \<times> int \<Rightarrow> int \<times> int \<times> int" where
  "plusOneYear c = (case c of (y, m, d) \<Rightarrow> carryDate (y + 1, m, d))"

subsection \<open>Utility functions on dates\<close>

definition isNewMonth :: "int \<Rightarrow> int \<Rightarrow> bool" where
  "isNewMonth lastAlertDate currentDate =
     (getMonth lastAlertDate \<noteq> getMonth currentDate
      \<or> getFullYear lastAlertDate \<noteq> getFullYear currentDate)"

text \<open>The \<^verbatim>\<open>switch\<close> has no default: any other interval, \<^verbatim>\<open>null\<close> included, leaves the date as it is.\<close>

definition calculateNextRecurringDate :: "int \<Rightarrow> string option \<Rightarrow> int" where
  "calculateNextRecurringDate date interval =
     (let next = date
      in if interval = Some ''DAILY'' then setDate next (getDate next + 1)
         else if interval = Some ''WEEKLY'' then setDate next (getDate next + 7)
         else if interval = Some ''MONTHLY'' then setMonth next (getMonth next + 1)
         else if interval = Some ''YEARLY'' then setFullYear next (getFullYear next + 1)
         else next)"

subsection \<open>JavaScript numbers: rounding to binary64\<close>

text \<open>
  \<open>pow2 q\<close> is 2 to the power \<open>q\<close>. For a positive \<open>x\<close>, \<open>binade x\<close> is the exponent \<open>e\<close> with
  \<open>pow2 e \<le> x < pow2 (e + 1)\<close>, so that the doubles next to \<open>x\<close> are the multiples of
  \<open>pow2 (e - 52)\<close>; \<open>roundDouble x\<close> is the nearest of them, the one with the even
  multiplier when \<open>x\<close> is halfway between two.
\<close>

definition pow2 :: "int \<Rightarrow> rat" where
  "pow2 q = 2 powi q"

definition binade :: "rat \<Rightarrow> int" where
  "binade x = (if 1 \<le> x then bitlen \<lfloor>x\<rfloor> - 1 else - bitlen (\<lceil>1 / x\<rceil> - 1))"

definition roundHalfEven :: "rat \<Rightarrow> int" where
  "roundHalfEven y =
     (if y - of_int \<lfloor>y\<rfloor> < 1 / 2 then \<lfloor>y\<rfloor>
      else if 1 / 2 < y - of_int \<lfloor>y\<rfloor> then \<lfloor>y\<rfloor> + 1
      else if even \<lfloor>y\<rfloor> then \<lfloor>y\<rfloor>
      else \<lfloor>y\<rfloor> + 1)"

definition roundTo :: "int \<Rightarrow> rat \<Rightarrow> rat" where
  "roundTo q a = of_int (roundHalfEven (a / pow2 q)) * pow2 q"

definition roundDouble :: "rat \<Rightarrow> rat" where
  "roundDouble x =
     (if x = 0 then 0
      else if x < 0 then - roundTo (binade (- x) - 52) (- x)
      else roundTo (binade x - 52) x)"

text \<open>\<^verbatim>\<open>Decimal.toNumber()\<close> and the conversion of a decimal operand of an arithmetic operator.\<close>

definition toNumber :: "rat \<Rightarrow> rat" where
  "toNumber a = roundDouble a"

subsection \<open>Rows of the database\<close>

record transaction =
  id' :: string
  type :: string
  amount :: "rat option"
  description :: "string option"
  date :: int
  category :: string
  userId :: string
  accountId :: string
  isRecurring :: bool
  recurringInterval :: "string option"
  nextRecurringDate :: "int option"
  lastProcessed :: "int option"
  status :: string

record budget =
  amount :: rat
  lastAlertSent :: "int option"

text \<open>The store: the transaction table in insertion order, and the balance of each account by id.\<close>

record store =
  transactions :: "transaction list"
  accounts :: "string \<rightharpoonup> rat"

datatype error = RecordNotFound | UniqueConstraintFailed

subsection \<open>The due check\<close>

definition isTransactionDue :: "transaction \<Rightarrow> int \<Rightarrow> bool" where
  "isTransactionDue t now =
     (if lastProcessed t = None then True
      else newDate (nextRecurringDate t) \<le> now)"

subsection \<open>Processing one recurring transaction\<close>

text \<open>
  \<^verbatim>\<open>transaction.amount ? transaction.amount.toNumber() : 0\<close>, a double, and the number
  passed as \<^verbatim>\<open>increment\<close>. The created row keeps the decimal amount itself.
\<close>

definition amountValue :: "transaction \<Rightarrow> rat" where
  "amountValue t = (case transaction.amount t of None \<Rightarrow> 0 | Some a \<Rightarrow> toNumber a)"

definition balanceChange :: "transaction \<Rightarrow> rat" where
  "balanceChange t = (if type t = ''EXPENSE'' then - amountValue t else amountValue t)"

text \<open>The template literal \<^verbatim>\<open>`${transaction.description} (Recurring)`\<close>.\<close>

definition recurringDescription :: "string option \<Rightarrow> string" where
  "recurringDescription d = (case d of None \<Rightarrow> ''null'' | Some s \<Rightarrow> s) @ '' (Recurring)''"

text \<open>
  The row that \<^verbatim>\<open>tx.transaction.create\<close> inserts. The database supplies what the call
  leaves out: the id and the status are parameters, the nullable columns are \<^verbatim>\<open>null\<close>.
\<close>

definition createdEntry :: "transaction \<Rightarrow> int \<Rightarrow> string \<Rightarrow> string \<Rightarrow> transaction" where
  "createdEntry t now newId defaultStatus =
     \<lparr> id' = newId,
       type = type t,
       amount = transaction.amount t,
       description = Some (recurringDescription (description t)),
       date = now,
       category = category t,
       userId = userId t,
       accountId = accountId t,
       isRecurring = False,
       recurringInterval = None,
       nextRecurringDate = None,
       lastProcessed = None,
       status = defaultStatus \<rparr>"

text \<open>The row update of \<^verbatim>\<open>tx.transaction.update\<close>, applied to the rows with the given id.\<close>

definition markProcessed :: "string \<Rightarrow> int \<Rightarrow> string option \<Rightarrow> transaction \<Rightarrow> transaction" where
  "markProcessed tid now interval r =
     (if id' r = tid
      then r\<lparr> lastProcessed := Some now,
              nextRecurringDate := Some (calculateNextRecurringDate now interval) \<rparr>
      else r)"

text \<open>
  The callback of \<^verbatim>\<open>db.$transaction\<close>: create the entry, increment the balance, advance
  the template. The increment adds the value of the number to the decimal balance. An id
  already taken or an account that does not exist makes the database
  reject the write; the transaction then rolls back and the error is thrown.
\<close>

definition applyRecurring :: "store \<Rightarrow> transaction \<Rightarrow> int \<Rightarrow> string \<Rightarrow> string \<Rightarrow> error + store" where
  "applyRecurring st t now newId defaultStatus =
     (if newId \<in> id' ` set (transactions st) then Inl UniqueConstraintFailed
      else case accounts st (accountId t) of
             None \<Rightarrow> Inl RecordNotFound
           | Some balance \<Rightarrow>
               Inr \<lparr> transactions =
                       map (markProcessed (id' t) now (recurringInterval t))
                         (transactions st @ [createdEntry t now newId defaultStatus]),
                     accounts = (accounts st)(accountId t \<mapsto> balance + balanceChange t) \<rparr>)"

text \<open>
  The handler of the event \<^verbatim>\<open>transaction.recurring.process\<close>. \<open>transactionId\<close> and
  \<open>userId\<close> are \<^verbatim>\<open>event?.data?.transactionId\<close> and \<^verbatim>\<open>event?.data?.userId\<close>; a missing or
  empty one ends the run, as does a row that is not found or not due.
\<close>

definition processRecurringTransaction ::
    "store \<Rightarrow> string option \<Rightarrow> string option \<Rightarrow> int \<Rightarrow> string \<Rightarrow> string \<Rightarrow> error + store" where
  "processRecurringTransaction st transactionId userId' now newId defaultStatus =
     (case (transactionId, userId') of
        (Some tid, Some uid) \<Rightarrow>
          if tid = [] \<or> uid = [] then Inr st
          else (case find (\<lambda>r. id' r = tid \<and> userId r = uid) (transactions st) of
                  None \<Rightarrow> Inr st
                | Some t \<Rightarrow>
                    if \<not> isTransactionDue t now then Inr st
                    else applyRecurring st t now newId defaultStatus)
      | _ \<Rightarrow> Inr st)"

subsection \<open>The daily trigger\<close>

text \<open>The \<^verbatim>\<open>where\<close> clause of the query; a comparison with a \<^verbatim>\<open>null\<close> column matches no row.\<close>

definition dueFilter :: "int \<Rightarrow> transaction \<Rightarrow> bool" where
  "dueFilter now t =
     (isRecurring t \<and> status t = ''COMPLETED''
      \<and> (lastProcessed t = None
         \<or> (case nextRecurringDate t of None \<Rightarrow> False | Some d \<Rightarrow> d \<le> now)))"

definition fetchRecurringTransactions :: "store \<Rightarrow> int \<Rightarrow> transaction list" where
  "fetchRecurringTransactions st now = filter (dueFilter now) (transactions st)"

text \<open>
  The trigger returns the store as it leaves it, the events it sends (name, transactionId,
  userId) and the count it reports.
\<close>

definition triggerRecurringTransactions ::
    "store \<Rightarrow> int \<Rightarrow> store \<times> (string \<times> string \<times> string) list \<times> nat" where
  "triggerRecurringTransactions st now =
     (let recurringTransactions = fetchRecurringTransactions st now;
          events = (if length recurringTransactions > 0
                    then map (\<lambda>t. (''transaction.recurring.process'', id' t, userId t))
                           recurringTransactions
                    else [])
      in (st, events, length recurringTransactions))"

subsection \<open>The budget alert\<close>

text \<open>A JavaScript number: a finite double, or what a division by zero yields.\<close>

datatype jsnumber = Finite rat | PosInfinity | NegInfinity | NaN

text \<open>\<open>x / y\<close> for finite doubles \<open>x\<close> and \<open>y\<close>; the zero divisor is \<open>+0\<close>.\<close>

definition js_divide :: "rat \<Rightarrow> rat \<Rightarrow> jsnumber" where
  "js_divide x y =
     (if y = 0 then (if x = 0 then NaN else if 0 < x then PosInfinity else NegInfinity)
      else Finite (roundDouble (x / y)))"

text \<open>\<open>n * c\<close> for a finite double \<open>c\<close>.\<close>

definition js_times :: "jsnumber \<Rightarrow> rat \<Rightarrow> jsnumber" where
  "js_times n c =
     (case n of
        Finite r \<Rightarrow> Finite (roundDouble (r * c))
      | PosInfinity \<Rightarrow> (if c = 0 then NaN else if 0 < c then PosInfinity else NegInfinity)
      | NegInfinity \<Rightarrow> (if c = 0 then NaN else if 0 < c then NegInfinity else PosInfinity)
      | NaN \<Rightarrow> NaN)"

text \<open>\<open>n >= c\<close> for a finite \<open>c\<close>; every comparison with \<open>NaN\<close> is false.\<close>

definition js_ge :: "jsnumber \<Rightarrow> rat \<Rightarrow> bool" where
  "js_ge n c =
     (case n of Finite r \<Rightarrow> c \<le> r | PosInfinity \<Rightarrow> True | NegInfinity \<Rightarrow> False | NaN \<Rightarrow> False)"

text \<open>\<^verbatim>\<open>expenses._sum.amount?.toNumber() || 0\<close>: the sum is \<^verbatim>\<open>null\<close> when no row matches.\<close>

definition totalExpenses :: "rat option \<Rightarrow> rat" where
  "totalExpenses s =
     (case s of None \<Rightarrow> 0 | Some a \<Rightarrow> if toNumber a = 0 then 0 else toNumber a)"

text \<open>
  \<^verbatim>\<open>(totalExpenses / budgetAmount) * 100\<close>: the division converts the budget amount to a
  number.
\<close>

definition percentageUsed :: "budget \<Rightarrow> rat option \<Rightarrow> jsnumber" where
  "percentageUsed b s =
     js_times (js_divide (totalExpenses s) (toNumber (budget.amount b))) 100"

text \<open>The condition under which \<^verbatim>\<open>checkBudgetAlerts\<close> sends the alert for one budget.\<close>

definition evaluateBudget :: "budget \<Rightarrow> rat option \<Rightarrow> int \<Rightarrow> bool" where
  "evaluateBudget b s now =
     (js_ge (percentageUsed b s) 80
      \<and> (case lastAlertSent b of None \<Rightarrow> True | Some l \<Rightarrow> isNewMonth (newDate (Some l)) now))"

text \<open>
  One check of one budget: whether the alert was sent, and the budget afterwards. Sending
  the alert is followed by the update of \<open>lastAlertSent\<close>.
\<close>

definition checkBudget :: "budget \<Rightarrow> rat option \<Rightarrow> int \<Rightarrow> bool \<times> budget" where
  "checkBudget b s now =
     (if evaluateBudget b s now then (True, b\<lparr> lastAlertSent := Some now \<rparr>) else (False, b))"

text \<open>
  A run of checks of one budget, each with the expense sum it found and the instant it
  ran at; the result lists the instants at which an alert was sent.
\<close>

fun alertsFired :: "budget \<Rightarrow> (rat option \<times> int) list \<Rightarrow> int list" where
  "alertsFired b [] = []"
| "alertsFired b ((s, now) # rest) =
     (if fst (checkBudget b s now) then now # alertsFired (snd (checkBudget b s now)) rest
      else alertsFired (snd (checkBudget b s now)) rest)"

subsection \<open>Stores reachable by processing events\<close>

text \<open>
  \<open>reach st0 st G\<close>: the store \<open>st\<close> arises from \<open>st0\<close> by runs of the handler, and \<open>G\<close> holds
  the ids of the rows those runs created.
\<close>

inductive reach :: "store \<Rightarrow> store \<Rightarrow> string set \<Rightarrow> bool" for st0 :: store where
  reach_init: "reach st0 st0 {}"
| reach_process:
    "reach st0 st G \<Longrightarrow>
     processRecurringTransaction st transactionId userId' now newId defaultStatus = Inr st' \<Longrightarrow>
     reach st0 st' (G \<union> (id' ` set (transactions st') - id' ` set (transactions st)))"
| reach_trigger:
    "reach st0 st G \<Longrightarrow> reach st0 (fst (triggerRecurringTransactions st now)) G"

subsection \<open>Iterating the next-date computation\<close>

text \<open>The date after \<open>k\<close> applications of \<^verbatim>\<open>calculateNextRecurringDate\<close>, each to the result of the one before.\<close>

definition nextDates :: "string option \<Rightarrow> int \<Rightarrow> nat \<Rightarrow> int" where
  "nextDates interval start k = ((\<lambda>t. calculateNextRecurringDate t interval) ^^ k) start"

subsection \<open>A small store for concrete runs\<close>

text \<open>A recurring expense that was never processed and whose interval is \<^verbatim>\<open>null\<close>, and its account.\<close>

definition exampleTemplate :: transaction where
  "exampleTemplate =
     \<lparr> id' = ''t1'', type = ''EXPENSE'', amount = Some 100, description = Some ''Rent'',
       date = 0, category = ''housing'', userId = ''u1'', accountId = ''a1'',
       isRecurring = True, recurringInterval = None, nextRecurringDate = None,
       lastProcessed = None, status = ''COMPLETED'' \<rparr>"

definition exampleStore :: store where
  "exampleStore = \<lparr> transactions = [exampleTemplate], accounts = [''a1'' \<mapsto> 500] \<rparr>"

text \<open>The store after the handler has processed the example template at instant 1000.\<close>

definition exampleAfter :: store where
  "exampleAfter =
     \<lparr> transactions =
         [exampleTemplate \<lparr> lastProcessed := Some 1000, nextRecurringDate := Some 1000 \<rparr>,
          \<lparr> id' = ''g1'', type = ''EXPENSE'', amount = Some 100,
            description = Some ''Rent (Recurring)'', date = 1000, category = ''housing'',
            userId = ''u1'', accountId = ''a1'', isRecurring = False,
            recurringInterval = None, nextRecurringDate = None, lastProcessed = None,
            status = ''COMPLETED'' \<rparr>],
       accounts = [''a1'' \<mapsto> 400] \<rparr>"

text \<open>Three checks of one budget: twice in March 2024, once in April 2024.\<close>

definition exampleChecks :: "(rat option \<times> int) list" where
  "exampleChecks =
     [(Some 850, DateUTC 2024 2 15), (Some 900, DateUTC 2024 2 20), (Some 900, DateUTC 2024 3 2)]"

text \<open>The example template with an amount of 2^53 + 1, which is not a binary64 number, and its account.\<close>

definition bigTemplate :: transaction where
  "bigTemplate = exampleTemplate\<lparr> transaction.amount := Some 9007199254740993 \<rparr>"

definition bigStore :: store where
  "bigStore = \<lparr> transactions = [bigTemplate], accounts = [''a1'' \<mapsto> 0] \<rparr>"

text \<open>The example template with a monthly interval, and its account.\<close>

definition monthlyTemplate :: transaction where
  "monthlyTemplate = exampleTemplate\<lparr> recurringInterval := Some ''MONTHLY'' \<rparr>"

definition monthlyStore :: store where
  "monthlyStore = \<lparr> transactions = [monthlyTemplate], accounts = [''a1'' \<mapsto> 500] \<rparr>"

section \<open>The calendar functions are the ones ECMAScript specifies\<close>

subsection \<open>Years\<close>

lemma div_bounds:
  fixes x k :: int
  assumes "0 < k"
  shows "k * (x div k) \<le> x" and "x < k * (x div k) + k"
proof -
  have "x = k * (x div k) + x mod k" by simp
  moreover have "0 \<le> x mod k" "x mod k < k" using assms by simp_all
  ultimately show "k * (x div k) \<le> x" and "x < k * (x div k) + k" by linarith+
qed

lemma DayFromYear_bounds:
  "146097 * (y - 1970) - 506 \<le> 400 * DayFromYear y"
  "400 * DayFromYear y \<le> 146097 * (y - 1970) + 589"
proof -
  define a where "a = (y - 1969) div 4"
  define b where "b = (y - 1901) div 100"
  define c where "c = (y - 1601) div 400"
  have A: "4 * a \<le> y - 1969" "y - 1969 < 4 * a + 4"
    unfolding a_def by (rule div_bounds; simp)+
  have B: "100 * b \<le> y - 1901" "y - 1901 < 100 * b + 100"
    unfolding b_def by (rule div_bounds; simp)+
  have C: "400 * c \<le> y - 1601" "y - 1601 < 400 * c + 400"
    unfolding c_def by (rule div_bounds; simp)+
  have D: "DayFromYear y = 365 * (y - 1970) + a - b + c"
    by (simp add: DayFromYear_def a_def b_def c_def)
  show "146097 * (y - 1970) - 506 \<le> 400 * DayFromYear y"
    using A(2) B(1) C(2) unfolding D by (simp add: algebra_simps)
  show "400 * DayFromYear y \<le> 146097 * (y - 1970) + 589"
    using A(1) B(2) C(1) unfolding D by (simp add: algebra_simps)
qed


lemma DaysInYear_cases: "DaysInYear y = 365 \<or> DaysInYear y = 366"
  by (simp add: DaysInYear_def)


lemma div_succ:
  fixes x k :: int
  assumes "0 < k"
  shows "(x + 1) div k = x div k + (if k dvd (x + 1) then 1 else 0)"
proof (cases "x mod k = k - 1")
  case True
  have "k * (x div k) + (k - 1) = x"
    using True mult_div_mod_eq [of k x] by simp
  then have e: "x + 1 = k * (x div k + 1)"
    by (simp add: distrib_left)
  have "(x + 1) div k = x div k + 1"
    unfolding e using assms by simp
  moreover have "k dvd (x + 1)"
    unfolding e by simp
  ultimately show ?thesis by simp
next
  case False
  have r: "0 \<le> x mod k" "x mod k < k" using assms by simp_all
  with False have r1: "x mod k + 1 < k" by linarith
  have e: "x + 1 = k * (x div k) + (x mod k + 1)"
    using mult_div_mod_eq [of k x] by linarith
  have "(x + 1) div k = x div k"
    by (rule int_div_pos_eq [OF e]) (use r r1 in linarith)+
  moreover have "(x + 1) mod k = x mod k + 1"
    by (rule int_mod_pos_eq [OF e]) (use r r1 in linarith)+
  then have "\<not> k dvd (x + 1)"
    using r by (simp add: dvd_eq_mod_eq_0)
  ultimately show ?thesis by simp
qed

lemma dvd_shift:
  fixes y k c :: int
  shows "k dvd (y - k * c) \<longleftrightarrow> k dvd y"
  by (rule dvd_diff_left_iff) simp

lemma DayFromYear_Suc: "DayFromYear (y + 1) = DayFromYear y + DaysInYear y"
proof -
  have a: "(y + 1 - 1969) div 4 = (y - 1969) div 4 + (if 4 dvd y then 1 else 0)"
    using div_succ [of 4 "y - 1969"] dvd_shift [of 4 y 492] by (simp add: algebra_simps)
  have b: "(y + 1 - 1901) div 100 = (y - 1901) div 100 + (if 100 dvd y then 1 else 0)"
    using div_succ [of 100 "y - 1901"] dvd_shift [of 100 y 19] by (simp add: algebra_simps)
  have c: "(y + 1 - 1601) div 400 = (y - 1601) div 400 + (if 400 dvd y then 1 else 0)"
    using div_succ [of 400 "y - 1601"] dvd_shift [of 400 y 4] by (simp add: algebra_simps)
  have d: "400 dvd y \<Longrightarrow> 100 dvd y" "100 dvd y \<Longrightarrow> 4 dvd y"
    by (rule dvd_trans [of _ 400], simp, assumption) (rule dvd_trans [of _ 100], simp, assumption)
  show ?thesis
    unfolding DayFromYear_def DaysInYear_def a b c using d
    by (auto simp: dvd_eq_mod_eq_0 [symmetric])
qed


lemma DayFromYear_mono_step: "DayFromYear y < DayFromYear (y + 1)"
  using DaysInYear_cases [of y] by (auto simp: DayFromYear_Suc)

lemma DayFromYear_strict_mono: "y < z \<Longrightarrow> DayFromYear y < DayFromYear z"
proof (induction "nat (z - y)" arbitrary: z)
  case 0
  then show ?case by simp
next
  case (Suc n)
  show ?case
  proof (cases "z - 1 = y")
    case True
    then have "z = y + 1" by simp
    then show ?thesis using DayFromYear_mono_step [of y] by simp
  next
    case False
    with Suc.prems have "y < z - 1" by simp
    moreover have "n = nat (z - 1 - y)" using Suc.hyps(2) by linarith
    ultimately have "DayFromYear y < DayFromYear (z - 1)" by (rule Suc.hyps(1) [rotated])
    also have "\<dots> < DayFromYear z" using DayFromYear_mono_step [of "z - 1"] by simp
    finally show ?thesis .
  qed
qed

lemma DayFromYear_mono: "y \<le> z \<Longrightarrow> DayFromYear y \<le> DayFromYear z"
  using DayFromYear_strict_mono [of y z] by (cases "y = z") auto

lemma DayFromYear_le_iff: "DayFromYear y \<le> DayFromYear z \<longleftrightarrow> y \<le> z"
  using DayFromYear_strict_mono [of z y] DayFromYear_mono [of y z] by fastforce

lemma YearFromTime_spec:
  "DayFromYear (YearFromTime t) \<le> Day t \<and> Day t < DayFromYear (YearFromTime t + 1)"
proof -
  define d where "d = Day t"
  define y where "y = 1970 + (400 * d) div 146097"
  have q: "146097 * (y - 1970) \<le> 400 * d" "400 * d < 146097 * (y - 1970) + 146097"
    unfolding y_def by (simp_all add: div_bounds)
  have Y: "YearFromTime t =
      (if d < DayFromYear y then y - 1 else if DayFromYear (y + 1) \<le> d then y + 1 else y)"
    by (simp add: YearFromTime_def Let_def d_def y_def)
  have lo: "DayFromYear (y - 1) \<le> d"
    using DayFromYear_bounds(2) [of "y - 1"] q by (simp add: algebra_simps)
  have hi: "d < DayFromYear (y + 2)"
    using DayFromYear_bounds(1) [of "y + 2"] q by (simp add: algebra_simps)
  show ?thesis
    unfolding Y d_def [symmetric] using lo hi by (auto simp: add.assoc)
qed

lemma YearFromTime_unique:
  assumes "DayFromYear y \<le> Day t" "Day t < DayFromYear (y + 1)"
  shows "YearFromTime t = y"
proof -
  let ?z = "YearFromTime t"
  from YearFromTime_spec [of t] assms
  have "DayFromYear y < DayFromYear (?z + 1)" "DayFromYear ?z < DayFromYear (y + 1)"
    by linarith+
  then have "y < ?z + 1" "?z < y + 1"
    using DayFromYear_mono [of "?z + 1" y] DayFromYear_mono [of "y + 1" ?z] by linarith+
  then show ?thesis by simp
qed


lemma DayWithinYear_range: "0 \<le> DayWithinYear t \<and> DayWithinYear t < DaysInYear (YearFromTime t)"
  using YearFromTime_spec [of t] by (simp add: DayWithinYear_def DayFromYear_Suc)

lemma InLeapYear_cases: "InLeapYear t = 0 \<or> InLeapYear t = 1"
  by (simp add: InLeapYear_def)

lemma MonthFromTime_cases:
  fixes t :: int
  defines "d \<equiv> DayWithinYear t" and "l \<equiv> InLeapYear t" and "m \<equiv> MonthFromTime t"
  shows "(m = 0 \<and> d < 31) \<or> (m = 1 \<and> 31 \<le> d \<and> d < 59 + l)
       \<or> (m = 2 \<and> 59 + l \<le> d \<and> d < 90 + l) \<or> (m = 3 \<and> 90 + l \<le> d \<and> d < 120 + l)
       \<or> (m = 4 \<and> 120 + l \<le> d \<and> d < 151 + l) \<or> (m = 5 \<and> 151 + l \<le> d \<and> d < 181 + l)
       \<or> (m = 6 \<and> 181 + l \<le> d \<and> d < 212 + l) \<or> (m = 7 \<and> 212 + l \<le> d \<and> d < 243 + l)
       \<or> (m = 8 \<and> 243 + l \<le> d \<and> d < 273 + l) \<or> (m = 9 \<and> 273 + l \<le> d \<and> d < 304 + l)
       \<or> (m = 10 \<and> 304 + l \<le> d \<and> d < 334 + l) \<or> (m = 11 \<and> 334 + l \<le> d)"
  unfolding m_def MonthFromTime_def Let_def d_def [symmetric] l_def [symmetric]
  by (simp add: not_less)

lemma MonthFromTime_range: "0 \<le> MonthFromTime t \<and> MonthFromTime t \<le> 11"
  using MonthFromTime_cases [of t] by auto

lemma DayWithinYear_decompose:
  "DayWithinYear t = DaysBeforeMonth (InLeapYear t) (MonthFromTime t) + DateFromTime t - 1"
  using MonthFromTime_cases [of t]
  by (elim disjE conjE) (simp_all add: DateFromTime_def DaysBeforeMonth_def Let_def)

lemma Day_decompose:
  "Day t = DayFromYear (YearFromTime t)
           + DaysBeforeMonth (InLeapYear t) (MonthFromTime t) + DateFromTime t - 1"
  using DayWithinYear_decompose [of t] by (simp add: DayWithinYear_def)

lemma MakeDay_in_range:
  "0 \<le> m \<Longrightarrow> m \<le> 11 \<Longrightarrow> MakeDay y m d =
     DayFromYear y + DaysBeforeMonth (if DaysInYear y = 366 then 1 else 0) m + d - 1"
  by (simp add: MakeDay_def Let_def)

lemma MakeDay_current: "MakeDay (YearFromTime t) (MonthFromTime t) dt = Day t + (dt - DateFromTime t)"
  using MonthFromTime_range [of t] Day_decompose [of t]
  by (simp add: MakeDay_in_range InLeapYear_def)

lemma DateFromTime_range:
  "1 \<le> DateFromTime t \<and> DateFromTime t \<le> DaysInMonth (YearFromTime t) (MonthFromTime t)"
proof -
  have r: "0 \<le> DayWithinYear t" "DayWithinYear t < 365 + InLeapYear t"
    using DayWithinYear_range [of t] DaysInYear_cases [of "YearFromTime t"]
    by (auto simp: InLeapYear_def)
  have l: "DaysInYear (YearFromTime t) = 366 \<longleftrightarrow> InLeapYear t = 1"
    by (simp add: InLeapYear_def)
  show ?thesis
    using MonthFromTime_cases [of t] r InLeapYear_cases [of t] unfolding DaysInMonth_def l
    by (elim disjE conjE) (simp_all add: DateFromTime_def Let_def)
qed


subsection \<open>Time values and day numbers\<close>

lemma TimeWithinDay_range: "0 \<le> TimeWithinDay t \<and> TimeWithinDay t < msPerDay"
  by (simp add: TimeWithinDay_def msPerDay_def)

lemma MakeDate_Day: "MakeDate (Day t) (TimeWithinDay t) = t"
  by (simp add: MakeDate_def Day_def TimeWithinDay_def)

lemma Day_MakeDate:
  assumes "0 \<le> tod" "tod < msPerDay"
  shows "Day (MakeDate d tod) = d" and "TimeWithinDay (MakeDate d tod) = tod"
proof -
  have p: "0 < msPerDay" by (simp add: msPerDay_def)
  show "Day (MakeDate d tod) = d"
    unfolding Day_def MakeDate_def using assms p by simp
  show "TimeWithinDay (MakeDate d tod) = tod"
    unfolding TimeWithinDay_def MakeDate_def using assms p by simp
qed

lemma MakeDate_shift: "MakeDate (Day t + n) (TimeWithinDay t) = t + n * msPerDay"
  using MakeDate_Day [of t] by (simp add: MakeDate_def algebra_simps)

lemma Day_mono: "t \<le> u \<Longrightarrow> Day t \<le> Day u"
  unfolding Day_def msPerDay_def by (rule zdiv_mono1) simp_all

lemma YearFromTime_cong: "Day t = Day u \<Longrightarrow> YearFromTime t = YearFromTime u"
  by (simp only: YearFromTime_def)

lemma MonthFromTime_cong: "Day t = Day u \<Longrightarrow> MonthFromTime t = MonthFromTime u"
  by (simp only: MonthFromTime_def DayWithinYear_def InLeapYear_def YearFromTime_def)

lemma DateFromTime_cong: "Day t = Day u \<Longrightarrow> DateFromTime t = DateFromTime u"
  by (simp only: DateFromTime_def MonthFromTime_def DayWithinYear_def InLeapYear_def YearFromTime_def)

lemma YearFromTime_mono:
  assumes "t \<le> u"
  shows "YearFromTime t \<le> YearFromTime u"
proof (rule ccontr)
  assume "\<not> YearFromTime t \<le> YearFromTime u"
  then have "YearFromTime u + 1 \<le> YearFromTime t" by simp
  then have "DayFromYear (YearFromTime u + 1) \<le> DayFromYear (YearFromTime t)"
    by (rule DayFromYear_mono)
  with YearFromTime_spec [of t] YearFromTime_spec [of u] Day_mono [OF assms]
  show False by linarith
qed

subsection \<open>Months\<close>

lemma div_mod_succ:
  fixes x k :: int
  assumes "0 < k"
  shows "(x + 1) div k = (if x mod k = k - 1 then x div k + 1 else x div k)"
    and "(x + 1) mod k = (if x mod k = k - 1 then 0 else x mod k + 1)"
proof -
  have r: "0 \<le> x mod k" "x mod k < k" using assms by simp_all
  have "(x + 1) div k = (if x mod k = k - 1 then x div k + 1 else x div k)
      \<and> (x + 1) mod k = (if x mod k = k - 1 then 0 else x mod k + 1)"
  proof (cases "x mod k = k - 1")
    case True
    have "k * (x div k) + (k - 1) = x"
      using True mult_div_mod_eq [of k x] by simp
    then have e: "x + 1 = k * (x div k + 1)"
      by (simp add: distrib_left)
    show ?thesis unfolding e using assms True by simp
  next
    case False
    with r have r1: "x mod k + 1 < k" by linarith
    have e: "x + 1 = k * (x div k) + (x mod k + 1)"
      using mult_div_mod_eq [of k x] by linarith
    have "(x + 1) div k = x div k"
      by (rule int_div_pos_eq [OF e]) (use r r1 in linarith)+
    moreover have "(x + 1) mod k = x mod k + 1"
      by (rule int_mod_pos_eq [OF e]) (use r r1 in linarith)+
    ultimately show ?thesis using False by simp
  qed
  then show "(x + 1) div k = (if x mod k = k - 1 then x div k + 1 else x div k)"
    and "(x + 1) mod k = (if x mod k = k - 1 then 0 else x mod k + 1)" by simp_all
qed

lemma month_succ:
  fixes m :: int
  shows "(m + 1) mod 12 = (if m mod 12 = 11 then 0 else m mod 12 + 1)"
    and "(m + 1) div 12 = (if m mod 12 = 11 then m div 12 + 1 else m div 12)"
  using div_mod_succ [of 12 m] by simp_all

lemma DaysBeforeMonth_step:
  assumes "0 \<le> mn" "mn < 11"
  shows "DaysBeforeMonth (if DaysInYear y = 366 then 1 else 0) (mn + 1)
       = DaysBeforeMonth (if DaysInYear y = 366 then 1 else 0) mn + DaysInMonth y mn"
proof -
  from assms have "mn = 0 \<or> mn = 1 \<or> mn = 2 \<or> mn = 3 \<or> mn = 4 \<or> mn = 5
      \<or> mn = 6 \<or> mn = 7 \<or> mn = 8 \<or> mn = 9 \<or> mn = 10" by presburger
  then show ?thesis
    by (elim disjE) (simp_all add: DaysBeforeMonth_def DaysInMonth_def)
qed

lemma MakeDay_month_step:
  "MakeDay y (m + 1) d = MakeDay y m d + DaysInMonth (y + m div 12) (m mod 12)"
proof (cases "m mod 12 = 11")
  case True
  have l: "DaysInYear (y + m div 12) = 365 \<or> DaysInYear (y + m div 12) = 366"
    by (rule DaysInYear_cases)
  have "DayFromYear (y + (m div 12 + 1)) = DayFromYear (y + m div 12) + DaysInYear (y + m div 12)"
    using DayFromYear_Suc [of "y + m div 12"] by (simp add: add.assoc)
  then show ?thesis
    using True l
    by (auto simp: MakeDay_def Let_def month_succ DaysBeforeMonth_def DaysInMonth_def)
next
  case False
  have r: "0 \<le> m mod 12" "m mod 12 < 11"
    using False by simp_all
  show ?thesis
    using False DaysBeforeMonth_step [OF r, of "y + m div 12"]
    by (simp add: MakeDay_def Let_def month_succ)
qed

lemma int_strict_mono_step:
  fixes f :: "int \<Rightarrow> int"
  assumes step: "\<And>n. f n < f (n + 1)" and "a < b"
  shows "f a < f b"
proof -
  have "f a < f (a + 1 + int k)" for k
  proof (induction k)
    case 0
    show ?case using step [of a] by simp
  next
    case (Suc k)
    have "f (a + 1 + int k) < f (a + 1 + int k + 1)" by (rule step)
    with Suc show ?case by (simp add: add.assoc)
  qed
  from this [of "nat (b - a - 1)"] \<open>a < b\<close> show ?thesis by simp
qed

lemma DaysInMonth_range: "28 \<le> DaysInMonth y mn \<and> DaysInMonth y mn \<le> 31"
  by (simp add: DaysInMonth_def)

lemma MakeDay_strict_mono: "m < m' \<Longrightarrow> MakeDay y m d < MakeDay y m' d"
proof (rule int_strict_mono_step [where f = "\<lambda>n. MakeDay y n d"])
  fix n
  show "MakeDay y n d < MakeDay y (n + 1) d"
    using DaysInMonth_range [of "y + n div 12" "n mod 12"] by (simp add: MakeDay_month_step)
qed

lemma MakeDay_mono: "m \<le> m' \<Longrightarrow> MakeDay y m d \<le> MakeDay y m' d"
  using MakeDay_strict_mono [of m m' y d] by (cases "m = m'") auto

lemma MakeDay_year_shift: "MakeDay y m d = MakeDay 0 (12 * y + m) d"
  by (simp add: MakeDay_def Let_def)

lemma MakeDay_date: "MakeDay y m d = MakeDay y m 1 + (d - 1)"
  by (simp add: MakeDay_def Let_def)

lemma month_bracket:
  "MakeDay (YearFromTime t) (MonthFromTime t) 1 \<le> Day t
   \<and> Day t < MakeDay (YearFromTime t) (MonthFromTime t + 1) 1"
proof -
  have m: "MonthFromTime t div 12 = 0" "MonthFromTime t mod 12 = MonthFromTime t"
    using MonthFromTime_range [of t] by simp_all
  show ?thesis
    using DateFromTime_range [of t]
    by (simp add: MakeDay_month_step MakeDay_current m)
qed

lemma monthIndex_bracket:
  "MakeDay 0 (monthIndex t) 1 \<le> Day t \<and> Day t < MakeDay 0 (monthIndex t + 1) 1"
  using month_bracket [of t]
  by (simp add: monthIndex_def MakeDay_year_shift [of "YearFromTime t"] add.assoc)

lemma monthIndex_unique:
  assumes "MakeDay 0 n 1 \<le> Day t" "Day t < MakeDay 0 (n + 1) 1"
  shows "monthIndex t = n"
proof -
  let ?k = "monthIndex t"
  from monthIndex_bracket [of t] assms
  have "MakeDay 0 n 1 < MakeDay 0 (?k + 1) 1" "MakeDay 0 ?k 1 < MakeDay 0 (n + 1) 1"
    by linarith+
  then have "n < ?k + 1" "?k < n + 1"
    using MakeDay_mono [of "?k + 1" n 0 1] MakeDay_mono [of "n + 1" ?k 0 1] by linarith+
  then show ?thesis by simp
qed

lemma monthIndex_mono:
  assumes "t \<le> u"
  shows "monthIndex t \<le> monthIndex u"
proof (rule ccontr)
  assume "\<not> monthIndex t \<le> monthIndex u"
  then have "monthIndex u + 1 \<le> monthIndex t" by simp
  then have "MakeDay 0 (monthIndex u + 1) 1 \<le> MakeDay 0 (monthIndex t) 1"
    by (rule MakeDay_mono)
  with monthIndex_bracket [of t] monthIndex_bracket [of u] Day_mono [OF assms]
  show False by linarith
qed

lemma monthIndex_eq_iff:
  "monthIndex t = monthIndex u \<longleftrightarrow>
     MonthFromTime t = MonthFromTime u \<and> YearFromTime t = YearFromTime u"
proof
  assume e: "monthIndex t = monthIndex u"
  have "monthIndex t div 12 = YearFromTime t" "monthIndex u div 12 = YearFromTime u"
    using MonthFromTime_range [of t] MonthFromTime_range [of u] by (simp_all add: monthIndex_def)
  with e have "YearFromTime t = YearFromTime u" by simp
  with e show "MonthFromTime t = MonthFromTime u \<and> YearFromTime t = YearFromTime u"
    by (simp add: monthIndex_def)
qed (simp add: monthIndex_def)

lemma civil_of_MakeDay:
  assumes m: "0 \<le> m" "m \<le> 11" and d: "1 \<le> d" "d \<le> DaysInMonth y m"
    and t: "Day t = MakeDay y m d"
  shows "YearFromTime t = y" and "MonthFromTime t = m" and "DateFromTime t = d"
proof -
  have mm: "m div 12 = 0" "m mod 12 = m" using m by simp_all
  have 1: "MakeDay 0 (12 * y + m) 1 \<le> Day t"
    using d(1) by (simp add: t MakeDay_date [of y m d] MakeDay_year_shift [of y m 1])
  have "MakeDay y (m + 1) 1 = MakeDay y m 1 + DaysInMonth y m"
    by (simp add: MakeDay_month_step mm)
  then have 2: "Day t < MakeDay 0 (12 * y + m + 1) 1"
    using d(2) by (simp add: t MakeDay_date [of y m d] MakeDay_year_shift [of y "m + 1" 1] add.assoc)
  have i: "monthIndex t = 12 * y + m"
    by (rule monthIndex_unique [OF 1 2])
  have "monthIndex t div 12 = YearFromTime t" "(12 * y + m) div 12 = y"
    using MonthFromTime_range [of t] m by (simp_all add: monthIndex_def)
  with i show Y: "YearFromTime t = y" by simp
  with i show M: "MonthFromTime t = m" by (simp add: monthIndex_def)
  from MakeDay_current [of t d] Y M t show "DateFromTime t = d" by simp
qed

section \<open>Rounding to binary64\<close>

lemma pow2_pos: "0 < pow2 q"
  by (simp add: pow2_def)

lemma pow2_add: "pow2 (a + b) = pow2 a * pow2 b"
  by (simp add: pow2_def power_int_add)

lemma pow2_Suc: "pow2 (q + 1) = 2 * pow2 q"
  by (simp add: pow2_def power_int_add_1')

lemma pow2_strict_mono: "a < b \<Longrightarrow> pow2 a < pow2 b"
  unfolding pow2_def by (rule power_int_strict_increasing) simp_all

lemma pow2_mono: "a \<le> b \<Longrightarrow> pow2 a \<le> pow2 b"
  unfolding pow2_def by (rule power_int_increasing) simp_all

lemma pow2_nat: "pow2 (int n) = 2 ^ n"
  by (simp add: pow2_def)

lemma pow2_neg_nat: "pow2 (- int n) = 1 / 2 ^ n"
  by (simp add: pow2_def power_int_minus_divide)

lemma bitlen_pow: 
  assumes "0 < n"
  shows "pow2 (bitlen n - 1) \<le> of_int n" and "of_int n + 1 \<le> pow2 (bitlen n)"
proof -
  from bitlen_bounds [OF assms]
  have b: "2 ^ nat (bitlen n - 1) \<le> n" "n < 2 ^ nat (bitlen n)" by simp_all
  have k: "1 \<le> bitlen n" using assms bitlen_eq_zero_iff [of n] bitlen_nonneg [of n] by linarith
  have "pow2 (bitlen n - 1) = of_int (2 ^ nat (bitlen n - 1))"
    using k pow2_nat [of "nat (bitlen n - 1)"] by simp
  also have "\<dots> \<le> of_int n" using b(1) by (simp only: of_int_le_iff)
  finally show "pow2 (bitlen n - 1) \<le> of_int n" .
  have "n + 1 \<le> 2 ^ nat (bitlen n)" using b(2) by simp
  then have "(of_int (n + 1) :: rat) \<le> of_int (2 ^ nat (bitlen n))" by (simp only: of_int_le_iff)
  moreover have "pow2 (bitlen n) = of_int (2 ^ nat (bitlen n))"
    using k pow2_nat [of "nat (bitlen n)"] by simp
  ultimately show "of_int n + 1 \<le> pow2 (bitlen n)" by simp
qed

lemma binade_bounds:
  assumes "0 < x"
  shows "pow2 (binade x) \<le> x" and "x < pow2 (binade x + 1)"
proof -
  have "pow2 (binade x) \<le> x \<and> x < pow2 (binade x + 1)"
  proof (cases "1 \<le> x")
    case True
    then have n: "0 < \<lfloor>x\<rfloor>" by simp
    have e: "binade x = bitlen \<lfloor>x\<rfloor> - 1" using True by (simp add: binade_def)
    have "pow2 (bitlen \<lfloor>x\<rfloor> - 1) \<le> of_int \<lfloor>x\<rfloor>" by (rule bitlen_pow(1) [OF n])
    also have "\<dots> \<le> x" by simp
    finally have 1: "pow2 (binade x) \<le> x" by (simp add: e)
    have "x < of_int \<lfloor>x\<rfloor> + 1" using floor_correct [of x] by simp
    also have "\<dots> \<le> pow2 (bitlen \<lfloor>x\<rfloor>)" by (rule bitlen_pow(2) [OF n])
    finally have "x < pow2 (binade x + 1)" by (simp add: e)
    with 1 show ?thesis by simp
  next
    case False
    let ?z = "1 / x"
    let ?n = "\<lceil>?z\<rceil> - 1"
    have z: "1 < ?z" using False assms by simp
    then have n: "0 < ?n" by (simp add: less_ceiling_iff)
    have e: "binade x = - bitlen ?n" using False by (simp add: binade_def)
    have k: "1 \<le> bitlen ?n" using n bitlen_eq_zero_iff [of ?n] bitlen_nonneg [of ?n] by linarith
    have "?z \<le> of_int \<lceil>?z\<rceil>" by simp
    also have "\<dots> = of_int ?n + 1" by simp
    also have "\<dots> \<le> pow2 (bitlen ?n)" by (rule bitlen_pow(2) [OF n])
    finally have "1 / pow2 (bitlen ?n) \<le> x"
      using assms pow2_pos [of "bitlen ?n"] by (simp add: field_simps)
    moreover have "pow2 (- bitlen ?n) = 1 / pow2 (bitlen ?n)"
      by (simp add: pow2_def power_int_minus_divide)
    ultimately have 1: "pow2 (binade x) \<le> x" by (simp add: e)
    have "pow2 (bitlen ?n - 1) \<le> of_int ?n" by (rule bitlen_pow(1) [OF n])
    also have "of_int ?n < ?z" using ceiling_correct [of ?z] by simp
    finally have "x < 1 / pow2 (bitlen ?n - 1)"
      using assms pow2_pos [of "bitlen ?n - 1"] by (simp add: field_simps)
    moreover have "pow2 (- bitlen ?n + 1) = 1 / pow2 (bitlen ?n - 1)"
      using power_int_minus_divide [of "2::rat" "bitlen ?n - 1"] by (simp add: pow2_def)
    ultimately have "x < pow2 (binade x + 1)" by (simp add: e)
    with 1 show ?thesis by simp
  qed
  then show "pow2 (binade x) \<le> x" and "x < pow2 (binade x + 1)" by simp_all
qed

lemma binade_unique:
  assumes "pow2 e \<le> x" "x < pow2 (e + 1)"
  shows "binade x = e"
proof -
  have x: "0 < x" using assms(1) pow2_pos [of e] by linarith
  from binade_bounds [OF x] assms
  have "pow2 e < pow2 (binade x + 1)" "pow2 (binade x) < pow2 (e + 1)" by linarith+
  then have "e < binade x + 1" "binade x < e + 1"
    using pow2_mono [of "binade x + 1" e] pow2_mono [of "e + 1" "binade x"] by linarith+
  then show ?thesis by simp
qed


lemma roundHalfEven_nearest: "\<bar>of_int (roundHalfEven y) - y\<bar> \<le> 1 / 2"
  using floor_correct [of y] by (auto simp: roundHalfEven_def abs_le_iff)

lemma roundHalfEven_unique:
  assumes "\<bar>y - of_int m\<bar> < 1 / 2"
  shows "roundHalfEven y = m"
proof (cases "of_int m \<le> y")
  case True
  with assms have "\<lfloor>y\<rfloor> = m" by (intro floor_unique) (auto simp: abs_less_iff)
  with assms True show ?thesis by (auto simp: roundHalfEven_def abs_less_iff)
next
  case False
  with assms have f: "\<lfloor>y\<rfloor> = m - 1" by (intro floor_unique) (auto simp: abs_less_iff)
  with assms False show ?thesis by (auto simp: roundHalfEven_def abs_less_iff)
qed

lemma roundHalfEven_tie:
  assumes "y = of_int m + 1 / 2"
  shows "roundHalfEven y = (if even m then m else m + 1)"
proof -
  have "\<lfloor>y\<rfloor> = m" unfolding assms by (intro floor_unique) simp_all
  then show ?thesis by (simp add: roundHalfEven_def assms)
qed

lemma roundHalfEven_of_int: "roundHalfEven (of_int m) = m"
  by (rule roundHalfEven_unique) simp

lemma roundHalfEven_ge:
  assumes "of_int n \<le> y"
  shows "n \<le> roundHalfEven y"
proof -
  have "n \<le> \<lfloor>y\<rfloor>" using assms by (simp add: le_floor_iff)
  then show ?thesis by (simp add: roundHalfEven_def)
qed

lemma roundDouble_0: "roundDouble 0 = 0"
  by (simp add: roundDouble_def)

lemma roundDouble_pos_eq: "0 < x \<Longrightarrow> roundDouble x = roundTo (binade x - 52) x"
  by (simp add: roundDouble_def)

lemma roundDouble_minus: "roundDouble (- x) = - roundDouble x"
  by (simp add: roundDouble_def)

lemma scaled_bounds:
  assumes "0 < x"
  shows "pow2 52 \<le> x / pow2 (binade x - 52)" and "x / pow2 (binade x - 52) < pow2 53"
proof -
  have e: "pow2 (binade x) = pow2 (binade x - 52) * pow2 52"
    "pow2 (binade x + 1) = pow2 (binade x - 52) * pow2 53"
    using pow2_add [of "binade x - 52" 52] pow2_add [of "binade x - 52" 53]
    by (simp_all add: add.commute)
  from binade_bounds [OF assms] pow2_pos [of "binade x - 52"]
  show "pow2 52 \<le> x / pow2 (binade x - 52)" and "x / pow2 (binade x - 52) < pow2 53"
    unfolding e by (simp_all add: field_simps)
qed

lemma roundDouble_positive:
  assumes "0 < x"
  shows "0 < roundDouble x"
proof -
  have "of_int (2 ^ 52) \<le> x / pow2 (binade x - 52)"
    using scaled_bounds(1) [OF assms] pow2_nat [of 52] by simp
  then have "2 ^ 52 \<le> roundHalfEven (x / pow2 (binade x - 52))"
    by (rule roundHalfEven_ge)
  then have "0 < roundHalfEven (x / pow2 (binade x - 52))" by simp
  then show ?thesis
    using pow2_pos [of "binade x - 52"] by (simp add: roundDouble_pos_eq [OF assms] roundTo_def)
qed

lemma roundDouble_negative: "x < 0 \<Longrightarrow> roundDouble x < 0"
  using roundDouble_positive [of "- x"] by (simp add: roundDouble_minus)

lemma roundDouble_eq_0_iff: "roundDouble x = 0 \<longleftrightarrow> x = 0"
  using roundDouble_positive [of x] roundDouble_negative [of x] roundDouble_0
  by (cases "x = 0") (auto simp: neq_iff)

lemma roundDouble_error_pos:
  assumes "0 < x"
  shows "\<bar>roundDouble x - x\<bar> \<le> x / 2 ^ 53"
proof -
  let ?q = "binade x - 52"
  let ?m = "roundHalfEven (x / pow2 ?q)"
  have p: "0 < pow2 ?q" by (rule pow2_pos)
  have "roundDouble x - x = (of_int ?m - x / pow2 ?q) * pow2 ?q"
    using p by (simp add: roundDouble_pos_eq [OF assms] roundTo_def field_simps)
  then have "\<bar>roundDouble x - x\<bar> = \<bar>of_int ?m - x / pow2 ?q\<bar> * pow2 ?q"
    using p by (simp add: abs_mult)
  also have "\<dots> \<le> 1 / 2 * pow2 ?q"
    using roundHalfEven_nearest [of "x / pow2 ?q"] p by (intro mult_right_mono) simp_all
  also have "\<dots> = pow2 (binade x) / 2 ^ 53"
    using pow2_add [of ?q 52] pow2_nat [of 52] by simp
  also have "\<dots> \<le> x / 2 ^ 53"
    using binade_bounds(1) [OF assms] by (simp add: divide_right_mono)
  finally show ?thesis .
qed

lemma roundDouble_error: "\<bar>roundDouble x - x\<bar> \<le> \<bar>x\<bar> / 2 ^ 53"
proof (cases "0 < x")
  case True
  then show ?thesis using roundDouble_error_pos [of x] by simp
next
  case False
  show ?thesis
  proof (cases "x = 0")
    case True
    then show ?thesis by (simp add: roundDouble_0)
  next
    case False
    with \<open>\<not> 0 < x\<close> have "0 < - x" by simp
    from roundDouble_error_pos [OF this] show ?thesis
      using \<open>0 < - x\<close> by (simp add: roundDouble_minus abs_minus_commute)
  qed
qed

lemma roundDouble_nearest:
  assumes "pow2 e \<le> x" "x < pow2 (e + 1)" "\<bar>x / pow2 (e - 52) - of_int m\<bar> < 1 / 2"
  shows "roundDouble x = of_int m * pow2 (e - 52)"
proof -
  have x: "0 < x" using assms(1) pow2_pos [of e] by linarith
  have e: "binade x = e" by (rule binade_unique [OF assms(1,2)])
  show ?thesis
    by (simp add: roundDouble_pos_eq [OF x] roundTo_def e roundHalfEven_unique [OF assms(3)])
qed

lemma roundDouble_tie:
  assumes "pow2 e \<le> x" "x < pow2 (e + 1)" "x / pow2 (e - 52) = of_int m + 1 / 2"
  shows "roundDouble x = of_int (if even m then m else m + 1) * pow2 (e - 52)"
proof -
  have x: "0 < x" using assms(1) pow2_pos [of e] by linarith
  have e: "binade x = e" by (rule binade_unique [OF assms(1,2)])
  show ?thesis
    by (simp only: roundDouble_pos_eq [OF x] roundTo_def e roundHalfEven_tie [OF assms(3)])
qed

lemma roundDouble_exact:
  assumes "pow2 e \<le> x" "x < pow2 (e + 1)" "x / pow2 (e - 52) = of_int m"
  shows "roundDouble x = x"
proof -
  have "\<bar>x / pow2 (e - 52) - of_int m\<bar> < 1 / 2" by (simp add: assms(3))
  from roundDouble_nearest [OF assms(1,2) this] assms(3) pow2_pos [of "e - 52"]
  show ?thesis by (simp add: field_simps)
qed

text \<open>A rounded value is a double, and rounding a double leaves it as it is.\<close>

lemma roundHalfEven_le:
  assumes "y \<le> of_int n"
  shows "roundHalfEven y \<le> n"
proof (cases "y = of_int n")
  case True
  then show ?thesis by (simp add: roundHalfEven_of_int)
next
  case False
  with assms have "y < of_int n" by simp
  then have "\<lfloor>y\<rfloor> < n" by (simp add: floor_less_iff)
  then show ?thesis by (simp add: roundHalfEven_def)
qed

lemma roundDouble_idem: "roundDouble (roundDouble x) = roundDouble x"
proof -
  have pos: "roundDouble (roundDouble x) = roundDouble x" if x: "0 < x" for x
  proof -
    let ?e = "binade x"
    let ?q = "?e - 52"
    let ?m = "roundHalfEven (x / pow2 ?q)"
    let ?r = "of_int ?m * pow2 ?q"
    have r: "roundDouble x = ?r" by (simp add: roundDouble_pos_eq [OF x] roundTo_def)
    have p: "0 < pow2 ?q" by (rule pow2_pos)
    have lo: "2 ^ 52 \<le> ?m"
      using scaled_bounds(1) [OF x] pow2_nat [of 52] by (intro roundHalfEven_ge) simp
    have hi: "?m \<le> 2 ^ 53"
      using scaled_bounds(2) [OF x] pow2_nat [of 53] by (intro roundHalfEven_le) simp
    have e0: "pow2 ?e = 2 ^ 52 * pow2 ?q" "pow2 (?e + 1) = 2 ^ 53 * pow2 ?q"
      "pow2 (?e + 1 + 1) = 2 ^ 54 * pow2 ?q" "pow2 (?e + 1 - 52) = 2 * pow2 ?q"
      "pow2 (2 + ?e) = 2 ^ 54 * pow2 ?q" "pow2 (1 + ?e) = 2 ^ 53 * pow2 ?q"
      "pow2 (?e - 51) = 2 * pow2 ?q"
      using pow2_add [of ?q 52] pow2_add [of ?q 53] pow2_add [of ?q 54] pow2_add [of ?q 1]
        pow2_nat [of 52] pow2_nat [of 53] pow2_nat [of 54] pow2_nat [of 1]
      by (simp_all add: algebra_simps)
    show ?thesis
    proof (cases "?m = 2 ^ 53")
      case True
      have rr: "?r = 2 ^ 53 * pow2 ?q" by (simp add: True)
      have "roundDouble ?r = ?r"
      proof (rule roundDouble_exact [of "?e + 1" _ "2 ^ 52"])
        show "pow2 (?e + 1) \<le> ?r" by (simp add: rr e0)
        show "?r < pow2 (?e + 1 + 1)" using p by (simp add: rr e0)
        show "?r / pow2 (?e + 1 - 52) = of_int (2 ^ 52)" using p by (simp add: rr e0)
      qed
      then show ?thesis by (simp only: r)
    next
      case False
      with hi have lt: "?m < 2 ^ 53" by simp
      have "roundDouble ?r = ?r"
      proof (rule roundDouble_exact [of ?e _ ?m])
        have "(2 ^ 52 :: rat) \<le> of_int ?m" using lo by (metis of_int_le_iff of_int_numeral of_int_power)
        then show "pow2 ?e \<le> ?r" using p by (simp add: e0)
        have "of_int ?m < (2 ^ 53 :: rat)" using lt by (metis of_int_less_iff of_int_numeral of_int_power)
        then show "?r < pow2 (?e + 1)" using p by (simp add: e0)
        show "?r / pow2 ?q = of_int ?m" using p by simp
      qed
      then show ?thesis by (simp only: r)
    qed
  qed
  show ?thesis
  proof (cases "0 < x")
    case True
    then show ?thesis by (rule pos)
  next
    case False
    show ?thesis
    proof (cases "x = 0")
      case True
      then show ?thesis by (simp add: roundDouble_0)
    next
      case False
      with \<open>\<not> 0 < x\<close> have "0 < - x" by simp
      from pos [OF this] show ?thesis by (simp add: roundDouble_minus)
    qed
  qed
qed

lemma toNumber_idem: "toNumber (toNumber a) = toNumber a"
  by (simp add: toNumber_def roundDouble_idem)

lemma toNumber_eq_0_iff: "toNumber a = 0 \<longleftrightarrow> a = 0"
  by (simp add: toNumber_def roundDouble_eq_0_iff)

lemma toNumber_positive: "0 < a \<Longrightarrow> 0 < toNumber a"
  by (simp add: toNumber_def roundDouble_positive)

lemma toNumber_negative: "a < 0 \<Longrightarrow> toNumber a < 0"
  by (simp add: toNumber_def roundDouble_negative)

lemma toNumber_pos_iff: "0 < toNumber a \<longleftrightarrow> 0 < a"
proof
  assume p: "0 < toNumber a"
  show "0 < a"
  proof (rule ccontr)
    assume "\<not> 0 < a"
    then consider "a = 0" | "a < 0" by linarith
    then show False
    proof cases
      case 1
      with p toNumber_eq_0_iff [of a] show False by simp
    next
      case 2
      with p toNumber_negative [of a] show False by simp
    qed
  qed
next
  assume "0 < a"
  then show "0 < toNumber a" by (rule toNumber_positive)
qed

lemma toNumber_error: "\<bar>toNumber a - a\<bar> \<le> \<bar>a\<bar> / 2 ^ 53"
  unfolding toNumber_def by (rule roundDouble_error)

section \<open>Concrete numbers\<close>

lemma double_100: "roundDouble 100 = 100"
  using roundDouble_exact [of 6 "100" 7036874417766400] by (simp add: pow2_def)

lemma double_850: "roundDouble 850 = 850"
  using roundDouble_exact [of 9 "850" 7476679068876800] by (simp add: pow2_def)

lemma double_900: "roundDouble 900 = 900"
  using roundDouble_exact [of 9 "900" 7916483719987200] by (simp add: pow2_def)


lemma double_1000: "roundDouble 1000 = 1000"
  using roundDouble_exact [of 9 "1000" 8796093022208000] by (simp add: pow2_def)

lemma double_850_1000: "roundDouble (850 / 1000) = (7656119366529843 / 9007199254740992)"
  using roundDouble_nearest [of "- 1" "(850 / 1000)" 7656119366529843] by (simp add: pow2_def)

lemma double_850_pct: "roundDouble ((7656119366529843 / 9007199254740992) * 100) = 85"
  using roundDouble_nearest [of 6 "((7656119366529843 / 9007199254740992) * 100)" 5981343255101440] by (simp add: pow2_def)

lemma double_900_1000: "roundDouble (900 / 1000) = (8106479329266893 / 9007199254740992)"
  using roundDouble_nearest [of "- 1" "(900 / 1000)" 8106479329266893] by (simp add: pow2_def)

lemma double_900_pct: "roundDouble ((8106479329266893 / 9007199254740992) * 100) = 90"
  using roundDouble_nearest [of 6 "((8106479329266893 / 9007199254740992) * 100)" 6333186975989760] by (simp add: pow2_def)







lemma double_big: "roundDouble 9007199254740993 = 9007199254740992"
  using roundDouble_tie [of 53 "9007199254740993" 4503599627370496] by (simp add: pow2_def)

lemma toNumber_100: "toNumber 100 = 100"
  by (simp add: toNumber_def double_100)

text \<open>The percentage, given the doubles of each step.\<close>

lemma percentageUsed_steps:
  assumes "toNumber (budget.amount b) = y" "y \<noteq> 0" "toNumber x = x'" "x' \<noteq> 0"
    and "roundDouble (x' / y) = q" "roundDouble (q * 100) = p"
  shows "percentageUsed b (Some x) = Finite p"
  using assms by (simp add: percentageUsed_def totalExpenses_def js_divide_def js_times_def)

lemma percentage_850_of_1000:
  "percentageUsed \<lparr> budget.amount = 1000, lastAlertSent = l \<rparr> (Some 850) = Finite 85"
  by (rule percentageUsed_steps [where y = 1000 and x' = 850, OF _ _ _ _ double_850_1000 double_850_pct])
    (simp_all add: toNumber_def double_1000 double_850)

lemma percentage_900_of_1000:
  "percentageUsed \<lparr> budget.amount = 1000, lastAlertSent = l \<rparr> (Some 900) = Finite 90"
  by (rule percentageUsed_steps [where y = 1000 and x' = 900, OF _ _ _ _ double_900_1000 double_900_pct])
    (simp_all add: toNumber_def double_1000 double_900)



section \<open>The next recurring date\<close>

lemma setDate_shift: "setDate t (getDate t + n) = t + n * msPerDay"
  using MakeDate_shift [of t n] by (simp add: setDate_def getDate_def MakeDay_current)

lemma calc_DAILY: "calculateNextRecurringDate t (Some ''DAILY'') = t + msPerDay"
  using setDate_shift [of t 1] by (simp add: calculateNextRecurringDate_def)

lemma calc_WEEKLY: "calculateNextRecurringDate t (Some ''WEEKLY'') = t + 7 * msPerDay"
  using setDate_shift [of t 7] by (simp add: calculateNextRecurringDate_def)

lemma calc_MONTHLY:
  "calculateNextRecurringDate t (Some ''MONTHLY'') =
     MakeDate (MakeDay (YearFromTime t) (MonthFromTime t + 1) (DateFromTime t)) (TimeWithinDay t)"
  by (simp add: calculateNextRecurringDate_def setMonth_def getMonth_def)

lemma calc_YEARLY:
  "calculateNextRecurringDate t (Some ''YEARLY'') =
     MakeDate (MakeDay (YearFromTime t + 1) (MonthFromTime t) (DateFromTime t)) (TimeWithinDay t)"
  by (simp add: calculateNextRecurringDate_def setFullYear_def getFullYear_def)

lemma calc_other:
  "interval \<notin> {Some ''DAILY'', Some ''WEEKLY'', Some ''MONTHLY'', Some ''YEARLY''} \<Longrightarrow>
   calculateNextRecurringDate t interval = t"
  by (simp add: calculateNextRecurringDate_def)

lemma civil_carry:
  assumes m: "0 \<le> m" "m \<le> 11" and d: "1 \<le> d" "d \<le> 31" and t: "Day t = MakeDay y m d"
  shows "civil t = carryDate (y, m, d)"
proof (cases "d \<le> DaysInMonth y m")
  case True
  then show ?thesis
    using civil_of_MakeDay [OF m d(1) True t]
    by (simp add: civil_def carryDate_def getFullYear_def getMonth_def getDate_def)
next
  case False
  have r: "28 \<le> DaysInMonth y m" "DaysInMonth y m \<le> 31" using DaysInMonth_range [of y m] by simp_all
  have "m \<noteq> 11" using False d(2) by (auto simp: DaysInMonth_def)
  with m have m1: "0 \<le> m + 1" "m + 1 \<le> 11" by simp_all
  have mm: "m div 12 = 0" "m mod 12 = m" using m by simp_all
  have e: "1 \<le> d - DaysInMonth y m" "d - DaysInMonth y m \<le> DaysInMonth y (m + 1)"
    using False r d(2) DaysInMonth_range [of y "m + 1"] by simp_all
  have "MakeDay y (m + 1) (d - DaysInMonth y m) = MakeDay y m d"
    by (simp add: MakeDay_month_step mm MakeDay_date [of y m "d - DaysInMonth y m"] MakeDay_date [of y m d])
  then have "Day t = MakeDay y (m + 1) (d - DaysInMonth y m)" using t by simp
  from civil_of_MakeDay [OF m1 e this] False show ?thesis
    by (simp add: civil_def carryDate_def getFullYear_def getMonth_def getDate_def)
qed

lemma Day_calc_MONTHLY:
  "Day (calculateNextRecurringDate t (Some ''MONTHLY'')) =
     MakeDay (YearFromTime t) (MonthFromTime t + 1) (DateFromTime t)"
  using TimeWithinDay_range [of t] by (simp add: calc_MONTHLY Day_MakeDate)

lemma Day_calc_YEARLY:
  "Day (calculateNextRecurringDate t (Some ''YEARLY'')) =
     MakeDay (YearFromTime t + 1) (MonthFromTime t) (DateFromTime t)"
  using TimeWithinDay_range [of t] by (simp add: calc_YEARLY Day_MakeDate)

lemma DateFromTime_le_31: "1 \<le> DateFromTime t \<and> DateFromTime t \<le> 31"
  using DateFromTime_range [of t] DaysInMonth_range [of "YearFromTime t" "MonthFromTime t"] by simp

lemma civil_calc_MONTHLY:
  "civil (calculateNextRecurringDate t (Some ''MONTHLY'')) = plusOneMonth (civil t)"
proof (cases "MonthFromTime t = 11")
  case True
  have "MakeDay (YearFromTime t) (MonthFromTime t + 1) (DateFromTime t)
      = MakeDay (YearFromTime t + 1) 0 (DateFromTime t)"
    by (simp add: True MakeDay_def Let_def)
  then have "Day (calculateNextRecurringDate t (Some ''MONTHLY''))
      = MakeDay (YearFromTime t + 1) 0 (DateFromTime t)"
    by (simp add: Day_calc_MONTHLY)
  from civil_carry [OF _ _ _ _ this] DateFromTime_le_31 [of t] True show ?thesis
    by (simp add: plusOneMonth_def civil_def getFullYear_def getMonth_def getDate_def)
next
  case False
  with MonthFromTime_range [of t] have m: "0 \<le> MonthFromTime t + 1" "MonthFromTime t + 1 \<le> 11"
    by simp_all
  from civil_carry [OF m _ _ Day_calc_MONTHLY] DateFromTime_le_31 [of t] False show ?thesis
    by (simp add: plusOneMonth_def civil_def getFullYear_def getMonth_def getDate_def)
qed

lemma civil_calc_YEARLY:
  "civil (calculateNextRecurringDate t (Some ''YEARLY'')) = plusOneYear (civil t)"
  using civil_carry [OF _ _ _ _ Day_calc_YEARLY, of t] DateFromTime_le_31 [of t] MonthFromTime_range [of t]
  by (simp add: plusOneYear_def civil_def getFullYear_def getMonth_def getDate_def)

lemma TimeWithinDay_calc:
  "TimeWithinDay (calculateNextRecurringDate t (Some ''MONTHLY'')) = TimeWithinDay t"
  "TimeWithinDay (calculateNextRecurringDate t (Some ''YEARLY'')) = TimeWithinDay t"
  using TimeWithinDay_range [of t] by (simp_all add: calc_MONTHLY calc_YEARLY Day_MakeDate)

lemma nextDates_0: "nextDates i s 0 = s"
  by (simp add: nextDates_def)

lemma nextDates_Suc: "nextDates i s (Suc k) = calculateNextRecurringDate (nextDates i s k) i"
  by (simp add: nextDates_def)

lemma MakeDay_normalise: "MakeDay y m d = MakeDay (y + m div 12) (m mod 12) d"
  by (simp add: MakeDay_def Let_def)

lemma calc_MONTHLY_gap:
  "calculateNextRecurringDate t (Some ''MONTHLY'') =
     t + DaysInMonth (YearFromTime t) (MonthFromTime t) * msPerDay"
proof -
  have m: "MonthFromTime t div 12 = 0" "MonthFromTime t mod 12 = MonthFromTime t"
    using MonthFromTime_range [of t] by simp_all
  have "MakeDay (YearFromTime t) (MonthFromTime t + 1) (DateFromTime t)
      = Day t + DaysInMonth (YearFromTime t) (MonthFromTime t)"
    by (simp add: MakeDay_month_step m MakeDay_current)
  then show ?thesis by (simp add: calc_MONTHLY MakeDate_shift)
qed

lemma DaysBeforeMonth_leap:
  assumes "0 \<le> m" "m \<le> 11"
  shows "DaysBeforeMonth l m = DaysBeforeMonth 0 m + (if 2 \<le> m then l else 0)"
proof -
  from assms have "m = 0 \<or> m = 1 \<or> m = 2 \<or> m = 3 \<or> m = 4 \<or> m = 5
      \<or> m = 6 \<or> m = 7 \<or> m = 8 \<or> m = 9 \<or> m = 10 \<or> m = 11" by presburger
  then show ?thesis
    by (elim disjE) (simp_all add: DaysBeforeMonth_def)
qed

lemma calc_YEARLY_gap:
  "calculateNextRecurringDate t (Some ''YEARLY'') =
     t + (if MonthFromTime t \<le> 1 then DaysInYear (YearFromTime t)
          else DaysInYear (YearFromTime t + 1)) * msPerDay"
proof -
  let ?Y = "YearFromTime t" and ?M = "MonthFromTime t" and ?D = "DateFromTime t"
  have m: "0 \<le> ?M" "?M \<le> 11" using MonthFromTime_range [of t] by simp_all
  have a: "MakeDay (?Y + 1) ?M ?D = DayFromYear ?Y + DaysInYear ?Y
      + DaysBeforeMonth 0 ?M + (if 2 \<le> ?M then (if DaysInYear (?Y + 1) = 366 then 1 else 0) else 0)
      + ?D - 1"
    using DaysBeforeMonth_leap [OF m, of "if DaysInYear (?Y + 1) = 366 then 1 else 0"]
    by (simp add: MakeDay_in_range [OF m] DayFromYear_Suc)
  have b: "Day t = DayFromYear ?Y
      + DaysBeforeMonth 0 ?M + (if 2 \<le> ?M then (if DaysInYear ?Y = 366 then 1 else 0) else 0)
      + ?D - 1"
    using DaysBeforeMonth_leap [OF m, of "InLeapYear t"] Day_decompose [of t]
    by (simp add: InLeapYear_def)
  have "MakeDay (?Y + 1) ?M ?D =
      Day t + (if ?M \<le> 1 then DaysInYear ?Y else DaysInYear (?Y + 1))"
    using DaysInYear_cases [of ?Y] DaysInYear_cases [of "?Y + 1"]
    unfolding a b by auto
  then show ?thesis by (simp add: calc_YEARLY MakeDate_shift)
qed

lemma calc_increasing:
  assumes "interval \<in> {Some ''DAILY'', Some ''WEEKLY'', Some ''MONTHLY'', Some ''YEARLY''}"
  shows "t < calculateNextRecurringDate t interval"
proof -
  have p: "0 < msPerDay" by (simp add: msPerDay_def)
  have "0 < DaysInMonth (YearFromTime t) (MonthFromTime t) * msPerDay"
    using DaysInMonth_range [of "YearFromTime t" "MonthFromTime t"] p by simp
  moreover have "0 < (if MonthFromTime t \<le> 1 then DaysInYear (YearFromTime t)
          else DaysInYear (YearFromTime t + 1)) * msPerDay"
    using DaysInYear_cases [of "YearFromTime t"] DaysInYear_cases [of "YearFromTime t + 1"] p by auto
  ultimately show ?thesis
    using assms p
    by (auto simp: calc_DAILY calc_WEEKLY calc_MONTHLY_gap calc_YEARLY_gap simp del: mult_pos_pos)
qed

lemma nextDates_DAILY: "nextDates (Some ''DAILY'') s k = s + int k * msPerDay"
  by (induction k) (simp_all add: nextDates_0 nextDates_Suc calc_DAILY algebra_simps)

lemma nextDates_WEEKLY: "nextDates (Some ''WEEKLY'') s k = s + 7 * int k * msPerDay"
  by (induction k) (simp_all add: nextDates_0 nextDates_Suc calc_WEEKLY algebra_simps)

lemma nextDates_MONTHLY:
  assumes "DateFromTime s \<le> 28"
  shows "nextDates (Some ''MONTHLY'') s k =
     MakeDate (MakeDay (YearFromTime s) (MonthFromTime s + int k) (DateFromTime s)) (TimeWithinDay s)"
proof (induction k)
  case 0
  show ?case by (simp add: nextDates_0 MakeDay_current MakeDate_Day)
next
  case (Suc k)
  let ?Y = "YearFromTime s" and ?M = "MonthFromTime s" and ?D = "DateFromTime s"
  let ?r = "nextDates (Some ''MONTHLY'') s k"
  let ?n = "?M + int k"
  have tod: "0 \<le> TimeWithinDay s" "TimeWithinDay s < msPerDay"
    using TimeWithinDay_range [of s] by simp_all
  have day: "Day ?r = MakeDay (?Y + ?n div 12) (?n mod 12) ?D"
    using Day_MakeDate(1) [OF tod] MakeDay_normalise [of ?Y ?n ?D] by (simp add: Suc.IH)
  have tw: "TimeWithinDay ?r = TimeWithinDay s"
    using Day_MakeDate(2) [OF tod] by (simp add: Suc.IH)
  have d: "1 \<le> ?D" "?D \<le> DaysInMonth (?Y + ?n div 12) (?n mod 12)"
    using DateFromTime_range [of s] assms DaysInMonth_range [of "?Y + ?n div 12" "?n mod 12"]
    by simp_all
  have c: "YearFromTime ?r = ?Y + ?n div 12" "MonthFromTime ?r = ?n mod 12" "DateFromTime ?r = ?D"
    by (rule civil_of_MakeDay [OF _ _ d day]; simp)+
  have "MakeDay (?Y + ?n div 12) (?n mod 12 + 1) ?D = MakeDay ?Y (?n + 1) ?D"
    unfolding MakeDay_year_shift [of "?Y + ?n div 12"] MakeDay_year_shift [of ?Y]
    by (simp add: algebra_simps)
  then show ?case
    by (simp add: nextDates_Suc calc_MONTHLY c tw add_ac)
qed

lemma nextDates_YEARLY:
  assumes "\<not> (MonthFromTime s = 1 \<and> DateFromTime s = 29)"
  shows "nextDates (Some ''YEARLY'') s k =
     MakeDate (MakeDay (YearFromTime s + int k) (MonthFromTime s) (DateFromTime s)) (TimeWithinDay s)"
proof (induction k)
  case 0
  show ?case by (simp add: nextDates_0 MakeDay_current MakeDate_Day)
next
  case (Suc k)
  let ?Y = "YearFromTime s" and ?M = "MonthFromTime s" and ?D = "DateFromTime s"
  let ?r = "nextDates (Some ''YEARLY'') s k"
  have tod: "0 \<le> TimeWithinDay s" "TimeWithinDay s < msPerDay"
    using TimeWithinDay_range [of s] by simp_all
  have m: "0 \<le> ?M" "?M \<le> 11" using MonthFromTime_range [of s] by simp_all
  have day: "Day ?r = MakeDay (?Y + int k) ?M ?D"
    using Day_MakeDate(1) [OF tod] by (simp add: Suc.IH)
  have tw: "TimeWithinDay ?r = TimeWithinDay s"
    using Day_MakeDate(2) [OF tod] by (simp add: Suc.IH)
  have d: "1 \<le> ?D" "?D \<le> DaysInMonth (?Y + int k) ?M"
    using DateFromTime_range [of s] assms
    by (auto simp: DaysInMonth_def split: if_splits)
  have c: "YearFromTime ?r = ?Y + int k" "MonthFromTime ?r = ?M" "DateFromTime ?r = ?D"
    by (rule civil_of_MakeDay [OF m d day])+
  show ?case
    by (simp add: nextDates_Suc calc_YEARLY c tw add_ac)
qed

section \<open>The budget alert and its monthly cooldown\<close>


lemma totalExpenses_pos_iff: "0 < totalExpenses s \<longleftrightarrow> (\<exists>x. s = Some x \<and> 0 < x)"
  by (cases s) (simp_all add: totalExpenses_def toNumber_pos_iff)


lemma percentageUsed_zero:
  "budget.amount b = 0 \<Longrightarrow>
   percentageUsed b s =
     (if totalExpenses s = 0 then NaN else if 0 < totalExpenses s then PosInfinity else NegInfinity)"
  by (simp add: percentageUsed_def js_divide_def js_times_def toNumber_eq_0_iff)

lemma isNewMonth_pair:
  "isNewMonth l c \<longleftrightarrow> (getMonth l, getFullYear l) \<noteq> (getMonth c, getFullYear c)"
  by (auto simp: isNewMonth_def)

lemma isNewMonth_monthIndex: "isNewMonth l c \<longleftrightarrow> monthIndex l \<noteq> monthIndex c"
  by (auto simp: isNewMonth_def getMonth_def getFullYear_def monthIndex_eq_iff)

lemma evaluateBudget_cooldown:
  "evaluateBudget b s now \<longleftrightarrow>
     js_ge (percentageUsed b s) 80
     \<and> (lastAlertSent b = None
        \<or> (\<exists>l. lastAlertSent b = Some l
               \<and> (getMonth l, getFullYear l) \<noteq> (getMonth now, getFullYear now)))"
  by (cases "lastAlertSent b") (simp_all add: evaluateBudget_def isNewMonth_pair newDate_def)

lemma evaluateBudget_same_month:
  assumes "(getMonth u, getFullYear u) = (getMonth t, getFullYear t)"
  shows "\<not> evaluateBudget (b\<lparr> lastAlertSent := Some t \<rparr>) s u"
  using assms by (simp add: evaluateBudget_cooldown)

lemma alertsFired_after:
  assumes "lastAlertSent b = Some t" "\<forall>u \<in> set (map snd invs). t \<le> u" "sorted (map snd invs)"
  shows "sorted_wrt (<) (map monthIndex (alertsFired b invs))
       \<and> (\<forall>u \<in> set (alertsFired b invs). monthIndex t < monthIndex u)"
  using assms
proof (induction invs arbitrary: b t)
  case Nil
  show ?case by simp
next
  case (Cons inv rest)
  obtain s now where inv: "inv = (s, now)" by (cases inv)
  have le: "t \<le> now" using Cons.prems(2) inv by simp
  have rest_ge: "\<forall>u \<in> set (map snd rest). now \<le> u" and rest_sorted: "sorted (map snd rest)"
    using Cons.prems(3) inv by simp_all
  show ?case
  proof (cases "evaluateBudget b s now")
    case True
    then have "isNewMonth t now"
      using Cons.prems(1) by (simp add: evaluateBudget_def newDate_def)
    then have lt: "monthIndex t < monthIndex now"
      using monthIndex_mono [OF le] by (simp add: isNewMonth_monthIndex)
    let ?b' = "b\<lparr> lastAlertSent := Some now \<rparr>"
    have "lastAlertSent ?b' = Some now" by simp
    from Cons.IH [OF this rest_ge rest_sorted]
    have IH: "sorted_wrt (<) (map monthIndex (alertsFired ?b' rest))"
      "\<forall>u \<in> set (alertsFired ?b' rest). monthIndex now < monthIndex u" by simp_all
    have fired: "alertsFired b (inv # rest) = now # alertsFired ?b' rest"
      using True by (simp add: inv checkBudget_def)
    show ?thesis
      unfolding fired using IH lt by auto
  next
    case False
    have "\<forall>u \<in> set (map snd rest). t \<le> u" using rest_ge le by auto
    from Cons.IH [OF Cons.prems(1) this rest_sorted] False show ?thesis
      by (simp add: inv checkBudget_def)
  qed
qed

lemma alertsFired_months_increase:
  assumes "sorted (map snd invs)"
  shows "sorted_wrt (<) (map monthIndex (alertsFired b invs))"
  using assms
proof (induction invs)
  case Nil
  show ?case by simp
next
  case (Cons inv rest)
  obtain s now where inv: "inv = (s, now)" by (cases inv)
  have rest_ge: "\<forall>u \<in> set (map snd rest). now \<le> u" and rest_sorted: "sorted (map snd rest)"
    using Cons.prems inv by simp_all
  show ?case
  proof (cases "evaluateBudget b s now")
    case True
    let ?b' = "b\<lparr> lastAlertSent := Some now \<rparr>"
    have "lastAlertSent ?b' = Some now" by simp
    from alertsFired_after [OF this rest_ge rest_sorted] True show ?thesis
      by (simp add: inv checkBudget_def)
  next
    case False
    with Cons.IH [OF rest_sorted] show ?thesis
      by (simp add: inv checkBudget_def)
  qed
qed

lemma distinct_months:
  assumes "sorted_wrt (<) (map monthIndex ts)"
  shows "distinct (map (\<lambda>t. (getMonth t, getFullYear t)) ts)"
proof -
  have "distinct (map monthIndex ts)"
    using assms by (simp add: strict_sorted_iff)
  then show ?thesis
  proof (induction ts)
    case Nil
    show ?case by simp
  next
    case (Cons a ts)
    have "(getMonth a, getFullYear a) \<notin> (\<lambda>t. (getMonth t, getFullYear t)) ` set ts"
    proof
      assume "(getMonth a, getFullYear a) \<in> (\<lambda>t. (getMonth t, getFullYear t)) ` set ts"
      then obtain u where "u \<in> set ts" "getMonth u = getMonth a" "getFullYear u = getFullYear a"
        by auto
      then have "monthIndex a \<in> monthIndex ` set ts"
        by (auto simp: monthIndex_def getMonth_def getFullYear_def intro!: image_eqI [of _ _ u])
      with Cons.prems show False by simp
    qed
    with Cons show ?case by simp
  qed
qed

section \<open>Processing and selecting recurring transactions\<close>

lemma isTransactionDue_iff:
  "isTransactionDue t now \<longleftrightarrow> lastProcessed t = None \<or> newDate (nextRecurringDate t) \<le> now"
  by (cases "lastProcessed t") (simp_all add: isTransactionDue_def)

lemma amountValue_Some: "transaction.amount t = Some a \<Longrightarrow> amountValue t = toNumber a"
  by (simp add: amountValue_def)

lemma process_due:
  assumes "tid \<noteq> []" "uid \<noteq> []"
    and "find (\<lambda>r. id' r = tid \<and> userId r = uid) (transactions st) = Some t"
    and "isTransactionDue t now"
  shows "processRecurringTransaction st (Some tid) (Some uid) now newId defaultStatus
       = applyRecurring st t now newId defaultStatus"
  using assms by (simp add: processRecurringTransaction_def)

lemma applyRecurring_success:
  assumes "newId \<notin> id' ` set (transactions st)" "accounts st (accountId t) = Some balance"
  shows "applyRecurring st t now newId defaultStatus =
     Inr \<lparr> transactions =
             map (markProcessed (id' t) now (recurringInterval t))
               (transactions st @ [createdEntry t now newId defaultStatus]),
           accounts = (accounts st)(accountId t \<mapsto> balance + balanceChange t) \<rparr>"
  using assms by (simp add: applyRecurring_def)

lemma process_cases:
  assumes "processRecurringTransaction st transactionId uid now newId defaultStatus = Inr st'"
  shows "st' = st \<or> (\<exists>t. applyRecurring st t now newId defaultStatus = Inr st')"
  using assms
  by (auto simp: processRecurringTransaction_def split: option.splits if_splits)

lemma markProcessed_keeps:
  "id' (markProcessed tid now i r) = id' r" "isRecurring (markProcessed tid now i r) = isRecurring r"
  by (simp_all add: markProcessed_def)

lemma applyRecurring_rows:
  assumes "applyRecurring st t now newId defaultStatus = Inr st'" "r' \<in> set (transactions st')"
  shows "(\<exists>r \<in> set (transactions st). id' r' = id' r \<and> isRecurring r' = isRecurring r)
       \<or> (id' r' = newId \<and> \<not> isRecurring r')"
proof -
  from assms(1) have tr: "transactions st' =
      map (markProcessed (id' t) now (recurringInterval t))
        (transactions st @ [createdEntry t now newId defaultStatus])"
    by (auto simp: applyRecurring_def split: if_splits option.splits)
  from assms(2) obtain r where r: "r \<in> set (transactions st @ [createdEntry t now newId defaultStatus])"
      "r' = markProcessed (id' t) now (recurringInterval t) r"
    unfolding tr by auto
  show ?thesis
  proof (cases "r \<in> set (transactions st)")
    case True
    then show ?thesis using r(2) by (auto simp: markProcessed_keeps)
  next
    case False
    with r(1) have "r = createdEntry t now newId defaultStatus" by simp
    then show ?thesis using r(2) by (simp add: markProcessed_keeps createdEntry_def)
  qed
qed

lemma process_rows:
  assumes "processRecurringTransaction st transactionId uid now newId defaultStatus = Inr st'"
    and "r' \<in> set (transactions st')"
  shows "(\<exists>r \<in> set (transactions st). id' r' = id' r \<and> isRecurring r' = isRecurring r)
       \<or> \<not> isRecurring r'"
  using process_cases [OF assms(1)] applyRecurring_rows [of st _ now newId defaultStatus st' r'] assms(2)
  by blast

lemma reach_generated_not_recurring:
  assumes "reach st0 st G"
  shows "\<forall>r \<in> set (transactions st). id' r \<in> G \<longrightarrow> \<not> isRecurring r"
  using assms
proof (induction rule: reach.induct)
  case reach_init
  show ?case by simp
next
  case (reach_process st G transactionId uid now newId defaultStatus st')
  show ?case
  proof (intro ballI impI)
    fix r' assume r': "r' \<in> set (transactions st')"
      and g: "id' r' \<in> G \<union> (id' ` set (transactions st') - id' ` set (transactions st))"
    from process_rows [OF reach_process.hyps(2) r']
    show "\<not> isRecurring r'"
    proof
      assume "\<exists>r \<in> set (transactions st). id' r' = id' r \<and> isRecurring r' = isRecurring r"
      then obtain r where r: "r \<in> set (transactions st)" "id' r' = id' r"
          "isRecurring r' = isRecurring r" by blast
      with g have "id' r \<in> G" by auto
      with reach_process.IH r show ?thesis by simp
    qed
  qed
next
  case (reach_trigger st G now)
  then show ?case by (simp add: triggerRecurringTransactions_def Let_def)
qed

lemma fetch_set:
  "set (fetchRecurringTransactions st now) =
     {t \<in> set (transactions st). isRecurring t \<and> status t = ''COMPLETED''
        \<and> (lastProcessed t = None \<or> (\<exists>d. nextRecurringDate t = Some d \<and> d \<le> now))}"
  by (auto simp: fetchRecurringTransactions_def dueFilter_def split: option.splits)

lemma exampleStore_process:
  "processRecurringTransaction exampleStore (Some ''t1'') (Some ''u1'') 1000 ''g1'' ''COMPLETED'' =
     Inr \<lparr> transactions =
             [exampleTemplate \<lparr> lastProcessed := Some 1000, nextRecurringDate := Some 1000 \<rparr>,
              \<lparr> id' = ''g1'', type = ''EXPENSE'', amount = Some 100,
                description = Some ''Rent (Recurring)'', date = 1000, category = ''housing'',
                userId = ''u1'', accountId = ''a1'', isRecurring = False,
                recurringInterval = None, nextRecurringDate = None, lastProcessed = None,
                status = ''COMPLETED'' \<rparr>],
           accounts = [''a1'' \<mapsto> 400] \<rparr>"
  by (simp add: processRecurringTransaction_def exampleStore_def exampleTemplate_def
      isTransactionDue_def applyRecurring_def markProcessed_def createdEntry_def
      recurringDescription_def balanceChange_def amountValue_def toNumber_100
      calculateNextRecurringDate_def)

section \<open>Concrete dates and iterated intervals\<close>

lemma civil_DateUTC:
  assumes "0 \<le> m" "m \<le> 11" "1 \<le> d" "d \<le> DaysInMonth y m"
  shows "getFullYear (DateUTC y m d) = y" and "getMonth (DateUTC y m d) = m"
    and "getDate (DateUTC y m d) = d" and "TimeWithinDay (DateUTC y m d) = 0"
proof -
  have p: "(0::int) \<le> 0" "0 < msPerDay" by (simp_all add: msPerDay_def)
  have day: "Day (DateUTC y m d) = MakeDay y m d"
    unfolding DateUTC_def by (rule Day_MakeDate(1) [OF p])
  show "getFullYear (DateUTC y m d) = y" and "getMonth (DateUTC y m d) = m"
    and "getDate (DateUTC y m d) = d"
    unfolding getFullYear_def getMonth_def getDate_def
    by (rule civil_of_MakeDay [OF assms day])+
  show "TimeWithinDay (DateUTC y m d) = 0"
    unfolding DateUTC_def by (rule Day_MakeDate(2) [OF p])
qed

lemmas month_lengths = DaysInMonth_def DaysInYear_def

lemma scenario_next_month:
  "calculateNextRecurringDate (DateUTC 2024 2 1) (Some ''MONTHLY'') = DateUTC 2024 3 1"
  by (simp add: calc_MONTHLY DateUTC_def civil_DateUTC [unfolded getFullYear_def getMonth_def getDate_def DateUTC_def] month_lengths)

lemma nextDates_strict_mono:
  assumes "interval \<in> {Some ''DAILY'', Some ''WEEKLY'', Some ''MONTHLY'', Some ''YEARLY''}" "j < k"
  shows "nextDates interval start j < nextDates interval start k"
proof (rule lift_Suc_mono_less [of "nextDates interval start", OF _ assms(2)])
  fix n
  show "nextDates interval start n < nextDates interval start (Suc n)"
    unfolding nextDates_Suc by (rule calc_increasing [OF assms(1)])
qed

lemma nextDates_setMonth:
  "getDate start \<le> 28 \<Longrightarrow>
   nextDates (Some ''MONTHLY'') start k = setMonth start (getMonth start + int k)"
  by (simp add: nextDates_MONTHLY getDate_def getMonth_def setMonth_def)

lemma nextDates_setFullYear:
  "\<not> (getMonth start = 1 \<and> getDate start = 29) \<Longrightarrow>
   nextDates (Some ''YEARLY'') start k = setFullYear start (getFullYear start + int k)"
  by (simp add: nextDates_YEARLY getDate_def getMonth_def getFullYear_def setFullYear_def)

lemma civil_nextDates_MONTHLY:
  assumes "getDate start \<le> 28"
  shows "civil (nextDates (Some ''MONTHLY'') start k) =
     (getFullYear start + (getMonth start + int k) div 12, (getMonth start + int k) mod 12,
      getDate start)"
proof -
  let ?Y = "YearFromTime start" and ?M = "MonthFromTime start" and ?D = "DateFromTime start"
  let ?n = "?M + int k"
  have D: "?D \<le> 28" using assms by (simp add: getDate_def)
  have tod: "0 \<le> TimeWithinDay start" "TimeWithinDay start < msPerDay"
    using TimeWithinDay_range [of start] by simp_all
  have day: "Day (nextDates (Some ''MONTHLY'') start k) = MakeDay (?Y + ?n div 12) (?n mod 12) ?D"
    using Day_MakeDate(1) [OF tod] MakeDay_normalise [of ?Y ?n ?D] by (simp add: nextDates_MONTHLY [OF D])
  have d: "1 \<le> ?D" "?D \<le> DaysInMonth (?Y + ?n div 12) (?n mod 12)"
    using DateFromTime_range [of start] D DaysInMonth_range [of "?Y + ?n div 12" "?n mod 12"]
    by simp_all
  have "YearFromTime (nextDates (Some ''MONTHLY'') start k) = ?Y + ?n div 12"
    "MonthFromTime (nextDates (Some ''MONTHLY'') start k) = ?n mod 12"
    "DateFromTime (nextDates (Some ''MONTHLY'') start k) = ?D"
    by (rule civil_of_MakeDay [OF _ _ d day]; simp)+
  then show ?thesis by (simp add: civil_def getFullYear_def getMonth_def getDate_def)
qed

lemma civil_nextDates_YEARLY:
  assumes "\<not> (getMonth start = 1 \<and> getDate start = 29)"
  shows "civil (nextDates (Some ''YEARLY'') start k) =
     (getFullYear start + int k, getMonth start, getDate start)"
proof -
  let ?Y = "YearFromTime start" and ?M = "MonthFromTime start" and ?D = "DateFromTime start"
  have a: "\<not> (?M = 1 \<and> ?D = 29)" using assms by (simp add: getDate_def getMonth_def)
  have tod: "0 \<le> TimeWithinDay start" "TimeWithinDay start < msPerDay"
    using TimeWithinDay_range [of start] by simp_all
  have m: "0 \<le> ?M" "?M \<le> 11" using MonthFromTime_range [of start] by simp_all
  have day: "Day (nextDates (Some ''YEARLY'') start k) = MakeDay (?Y + int k) ?M ?D"
    using Day_MakeDate(1) [OF tod] by (simp add: nextDates_YEARLY [OF a])
  have d: "1 \<le> ?D" "?D \<le> DaysInMonth (?Y + int k) ?M"
    using DateFromTime_range [of start] a
    by (auto simp: DaysInMonth_def split: if_splits)
  have "YearFromTime (nextDates (Some ''YEARLY'') start k) = ?Y + int k"
    "MonthFromTime (nextDates (Some ''YEARLY'') start k) = ?M"
    "DateFromTime (nextDates (Some ''YEARLY'') start k) = ?D"
    by (rule civil_of_MakeDay [OF m d day])+
  then show ?thesis by (simp add: civil_def getFullYear_def getMonth_def getDate_def)
qed

lemma monthly_twelve:
  "nextDates (Some ''MONTHLY'') (DateUTC 2024 0 15) 12 = DateUTC 2025 0 15"
proof -
  have c: "YearFromTime (DateUTC 2024 0 15) = 2024" "MonthFromTime (DateUTC 2024 0 15) = 0"
    "DateFromTime (DateUTC 2024 0 15) = 15" "TimeWithinDay (DateUTC 2024 0 15) = 0"
    using civil_DateUTC [of 0 15 2024]
    by (simp_all add: month_lengths getFullYear_def getMonth_def getDate_def)
  have "nextDates (Some ''MONTHLY'') (DateUTC 2024 0 15) 12
      = MakeDate (MakeDay 2024 (0 + int 12) 15) 0"
    using nextDates_MONTHLY [of "DateUTC 2024 0 15" 12] by (simp add: c)
  also have "MakeDay 2024 (0 + int 12) 15 = MakeDay 2025 0 15"
    by (simp add: MakeDay_def Let_def)
  finally show ?thesis by (simp add: DateUTC_def)
qed

lemma MakeDay_finds_first_day:
  fixes year month :: int
  defines "t \<equiv> MakeDate (MakeDay year month 1) 0"
  shows "YearFromTime t = year + month div 12" and "MonthFromTime t = month mod 12"
    and "DateFromTime t = 1"
proof -
  have p: "(0::int) \<le> 0" "0 < msPerDay" by (simp_all add: msPerDay_def)
  have day: "Day t = MakeDay (year + month div 12) (month mod 12) 1"
    unfolding t_def using Day_MakeDate(1) [OF p] MakeDay_normalise [of year month 1] by simp
  have d: "(1::int) \<le> 1" "1 \<le> DaysInMonth (year + month div 12) (month mod 12)"
    using DaysInMonth_range [of "year + month div 12" "month mod 12"] by simp_all
  show "YearFromTime t = year + month div 12" and "MonthFromTime t = month mod 12"
    and "DateFromTime t = 1"
    by (rule civil_of_MakeDay [OF _ _ d day]; simp)+
qed

section \<open>Concrete runs\<close>

lemma exampleStore_process':
  "processRecurringTransaction exampleStore (Some ''t1'') (Some ''u1'') 1000 ''g1'' ''COMPLETED'' =
     Inr exampleAfter"
  by (simp add: exampleStore_process exampleAfter_def)

lemma exampleAfter_differs: "exampleAfter \<noteq> exampleStore"
proof
  assume "exampleAfter = exampleStore"
  then have "length (transactions exampleAfter) = length (transactions exampleStore)" by simp
  then show False by (simp add: exampleAfter_def exampleStore_def)
qed

lemma DateUTC_values:
  "DateUTC 2024 2 15 = 1710460800000" "DateUTC 2024 2 20 = 1710892800000"
  "DateUTC 2024 3 2 = 1712016000000"
  by (simp_all add: DateUTC_def MakeDate_def MakeDay_def DayFromYear_def DaysBeforeMonth_def
      DaysInYear_def msPerDay_def)

lemma exampleChecks_sorted: "sorted (map snd exampleChecks)"
  by (simp add: exampleChecks_def DateUTC_values)

lemma exampleChecks_fired:
  "alertsFired \<lparr> budget.amount = 1000, lastAlertSent = None \<rparr> exampleChecks
     = [DateUTC 2024 2 15, DateUTC 2024 3 2]"
  by (simp add: exampleChecks_def checkBudget_def evaluateBudget_def percentage_850_of_1000
      percentage_900_of_1000 js_ge_def isNewMonth_def newDate_def civil_DateUTC month_lengths)

text \<open>A monthly expense of 100, never processed, run on 1 March 2024: next due on 1 April 2024.\<close>

lemma scenario_monthly_expense:
  "processRecurringTransaction
     \<lparr> transactions = [exampleTemplate\<lparr> recurringInterval := Some ''MONTHLY'' \<rparr>],
       accounts = [''a1'' \<mapsto> 500] \<rparr>
     (Some ''t1'') (Some ''u1'') (DateUTC 2024 2 1) ''g1'' ''COMPLETED''
   = Inr \<lparr> transactions =
             [exampleTemplate\<lparr> recurringInterval := Some ''MONTHLY'',
                lastProcessed := Some (DateUTC 2024 2 1),
                nextRecurringDate := Some (DateUTC 2024 3 1) \<rparr>,
              createdEntry (exampleTemplate\<lparr> recurringInterval := Some ''MONTHLY'' \<rparr>)
                (DateUTC 2024 2 1) ''g1'' ''COMPLETED''],
           accounts = [''a1'' \<mapsto> 400] \<rparr>"
  by (simp add: processRecurringTransaction_def exampleTemplate_def isTransactionDue_def
      applyRecurring_def markProcessed_def createdEntry_def balanceChange_def amountValue_def
      toNumber_100 scenario_next_month)

text \<open>The row the handler finds again after a run, and two more runs.\<close>

lemma find_map_same:
  assumes "\<And>r. P (f r) = P r"
  shows "find P (map f xs) = map_option f (find P xs)"
  by (induction xs) (simp_all add: assms)

lemma find_append_Some: "find P xs = Some t \<Longrightarrow> find P (xs @ ys) = Some t"
  by (induction xs) (auto split: if_splits)

lemma markProcessed_key:
  "(id' (markProcessed tid now i r) = k \<and> userId (markProcessed tid now i r) = u)
     = (id' r = k \<and> userId r = u)"
  by (simp add: markProcessed_def)

lemma process_template_row:
  assumes "tid \<noteq> []" "uid \<noteq> []"
    and f: "find (\<lambda>r. id' r = tid \<and> userId r = uid) (transactions st) = Some t"
    and "isTransactionDue t now"
    and p: "processRecurringTransaction st (Some tid) (Some uid) now newId defaultStatus = Inr st'"
  shows "find (\<lambda>r. id' r = tid \<and> userId r = uid) (transactions st')
       = Some (t\<lparr> lastProcessed := Some now,
                  nextRecurringDate := Some (calculateNextRecurringDate now (recurringInterval t)) \<rparr>)"
proof -
  have ap: "applyRecurring st t now newId defaultStatus = Inr st'"
    using process_due [OF assms(1-4), of newId defaultStatus] p by simp
  then have tr: "transactions st' =
      map (markProcessed (id' t) now (recurringInterval t))
        (transactions st @ [createdEntry t now newId defaultStatus])"
    by (auto simp: applyRecurring_def split: if_splits option.splits)
  have "find (\<lambda>r. id' r = tid \<and> userId r = uid) (transactions st')
      = map_option (markProcessed (id' t) now (recurringInterval t))
          (find (\<lambda>r. id' r = tid \<and> userId r = uid)
             (transactions st @ [createdEntry t now newId defaultStatus]))"
    unfolding tr by (rule find_map_same) (rule markProcessed_key)
  also have "\<dots> = Some (markProcessed (id' t) now (recurringInterval t) t)"
    by (simp add: find_append_Some [OF f])
  finally show ?thesis by (simp add: markProcessed_def)
qed

lemma bigStore_process:
  "processRecurringTransaction bigStore (Some ''t1'') (Some ''u1'') 1000 ''g1'' ''COMPLETED'' =
     Inr \<lparr> transactions =
             [bigTemplate \<lparr> lastProcessed := Some 1000, nextRecurringDate := Some 1000 \<rparr>,
              createdEntry bigTemplate 1000 ''g1'' ''COMPLETED''],
           accounts = [''a1'' \<mapsto> - 9007199254740992] \<rparr>"
  by (simp add: processRecurringTransaction_def bigStore_def bigTemplate_def exampleTemplate_def
      isTransactionDue_def applyRecurring_def markProcessed_def createdEntry_def
      balanceChange_def amountValue_def toNumber_def double_big calculateNextRecurringDate_def)

lemma monthlyStore_process:
  "processRecurringTransaction monthlyStore (Some ''t1'') (Some ''u1'') (DateUTC 2024 2 1)
     ''g1'' ''COMPLETED''
   = Inr \<lparr> transactions =
             [monthlyTemplate\<lparr> lastProcessed := Some (DateUTC 2024 2 1),
                nextRecurringDate := Some (DateUTC 2024 3 1) \<rparr>,
              createdEntry monthlyTemplate (DateUTC 2024 2 1) ''g1'' ''COMPLETED''],
           accounts = [''a1'' \<mapsto> 400] \<rparr>"
  using scenario_monthly_expense by (simp add: monthlyStore_def monthlyTemplate_def)

text \<open>
  Next dates at month ends: 31 January gives 2 March in 2024 and 3 March in 2023;
  31 December 2024 gives 31 January 2025; 29 February 2024 gives 1 March 2025.
\<close>

lemma next_date_examples:
  "civil (calculateNextRecurringDate (DateUTC 2024 0 31) (Some ''MONTHLY'')) = (2024, 2, 2)
   \<and> civil (calculateNextRecurringDate (DateUTC 2023 0 31) (Some ''MONTHLY'')) = (2023, 2, 3)
   \<and> civil (calculateNextRecurringDate (DateUTC 2024 11 31) (Some ''MONTHLY'')) = (2025, 0, 31)
   \<and> civil (calculateNextRecurringDate (DateUTC 2024 1 29) (Some ''YEARLY'')) = (2025, 2, 1)
   \<and> calculateNextRecurringDate (DateUTC 2024 2 1) (Some ''DAILY'') = DateUTC 2024 2 1 + 86400000"
  using civil_calc_MONTHLY [of "DateUTC 2024 0 31"] civil_calc_MONTHLY [of "DateUTC 2023 0 31"]
    civil_calc_MONTHLY [of "DateUTC 2024 11 31"] civil_calc_YEARLY [of "DateUTC 2024 1 29"]
    calc_DAILY [of "DateUTC 2024 2 1"]
  by (simp add: civil_def civil_DateUTC month_lengths plusOneMonth_def plusOneYear_def
      carryDate_def msPerDay_def)

section \<open>The claims\<close>




text \<open>
  Claim C2 says that a budget whose amount is 0 neither fires nor raises. The division is
  not guarded: 850 / 0 is \<open>+Infinity\<close>, which is at least 80, so for a budget of 0 that was
  never alerted the alert condition holds and the handler enters the branch that sends
  the alert.
\<close>

theorem C2_zero_budget_fires_counterexample:
  "budget.amount \<lparr> budget.amount = 0, lastAlertSent = None \<rparr> = 0
   \<and> evaluateBudget \<lparr> budget.amount = 0, lastAlertSent = None \<rparr> (Some 850) (DateUTC 2024 2 15)"
  using toNumber_positive [of 850]
  by (simp add: evaluateBudget_def percentageUsed_zero totalExpenses_def js_ge_def)

text \<open>
  Claim C2, amended. With a budget amount of 0 the division by zero is not guarded. The
  percentage is \<open>+Infinity\<close> when the expense sum is positive, \<open>NaN\<close> when it is zero or
  absent, and \<open>-Infinity\<close> when it is negative; the alert condition of the handler holds
  exactly when the expense sum is positive and the monthly cooldown allows it. What the
  handler does once the condition holds, building the payload and sending, is not part
  of this statement.
\<close>

theorem C2_zero_budget:
  assumes "budget.amount b = 0"
  shows "(evaluateBudget b s now \<longleftrightarrow>
            0 < totalExpenses s
            \<and> (lastAlertSent b = None
               \<or> (\<exists>l. lastAlertSent b = Some l
                      \<and> (getMonth l, getFullYear l) \<noteq> (getMonth now, getFullYear now))))
       \<and> (0 < totalExpenses s \<longleftrightarrow> (\<exists>x. s = Some x \<and> 0 < x))
       \<and> percentageUsed b s =
           (if totalExpenses s = 0 then NaN
            else if 0 < totalExpenses s then PosInfinity else NegInfinity)"
  using percentageUsed_zero [OF assms, of s] evaluateBudget_cooldown [of b s now]
    totalExpenses_pos_iff [of s]
  by (auto simp: js_ge_def)

text \<open>
  A budget of 0: the condition holds with 1 spent; it does not hold with 0 spent, with no
  rows, or with -5.
\<close>

theorem C2_zero_budget_witness:
  "budget.amount \<lparr> budget.amount = 0, lastAlertSent = None \<rparr> = 0
   \<and> evaluateBudget \<lparr> budget.amount = 0, lastAlertSent = None \<rparr> (Some 1) 0
   \<and> \<not> evaluateBudget \<lparr> budget.amount = 0, lastAlertSent = None \<rparr> (Some 0) 0
   \<and> \<not> evaluateBudget \<lparr> budget.amount = 0, lastAlertSent = None \<rparr> None 0
   \<and> \<not> evaluateBudget \<lparr> budget.amount = 0, lastAlertSent = None \<rparr> (Some (- 5)) 0"
proof -
  have z: "budget.amount \<lparr> budget.amount = 0, lastAlertSent = None \<rparr> = 0" by simp
  have p: "0 < totalExpenses (Some 1)" "\<not> 0 < totalExpenses (Some 0)"
    "\<not> 0 < totalExpenses None" "\<not> 0 < totalExpenses (Some (- 5))"
    by (simp_all add: totalExpenses_pos_iff)
  from C2_zero_budget [OF z, of "Some 1" 0] C2_zero_budget [OF z, of "Some 0" 0]
    C2_zero_budget [OF z, of None 0] C2_zero_budget [OF z, of "Some (- 5)" 0] p
  show ?thesis by simp
qed

text \<open>
  Claim C3. A transaction is due if and only if \<open>lastProcessed\<close> is absent or
  \<open>nextRecurringDate\<close> is not after \<open>now\<close>; when \<open>lastProcessed\<close> is absent it is due
  whatever \<open>nextRecurringDate\<close> is. The check is a function of the row and the instant
  only: it has no store to change. (A \<^verbatim>\<open>null\<close> \<open>nextRecurringDate\<close> is read by
  \<^verbatim>\<open>new Date\<close> as the epoch.)
\<close>

theorem C3_isTransactionDue_iff:
  "(isTransactionDue t now \<longleftrightarrow> lastProcessed t = None \<or> newDate (nextRecurringDate t) \<le> now)
   \<and> (nextRecurringDate t = Some d \<longrightarrow>
        (isTransactionDue t now \<longleftrightarrow> lastProcessed t = None \<or> d \<le> now))
   \<and> (lastProcessed t = None \<longrightarrow> isTransactionDue (t\<lparr> nextRecurringDate := n \<rparr>) now)"
  by (auto simp: isTransactionDue_iff newDate_def)

text \<open>
  A row processed before and next due at 2000 is not due at 1999 and due at 2000; the row
  never processed is due at 1999 although its next date is 2000.
\<close>

theorem C3_isTransactionDue_iff_witness:
  "nextRecurringDate (exampleTemplate\<lparr> nextRecurringDate := Some 2000, lastProcessed := Some 1000 \<rparr>)
     = Some 2000
   \<and> \<not> isTransactionDue
         (exampleTemplate\<lparr> nextRecurringDate := Some 2000, lastProcessed := Some 1000 \<rparr>) 1999
   \<and> isTransactionDue
         (exampleTemplate\<lparr> nextRecurringDate := Some 2000, lastProcessed := Some 1000 \<rparr>) 2000
   \<and> lastProcessed exampleTemplate = None
   \<and> isTransactionDue (exampleTemplate\<lparr> nextRecurringDate := Some 2000 \<rparr>) 1999"
  using
    C3_isTransactionDue_iff [of
      "exampleTemplate\<lparr> nextRecurringDate := Some 2000, lastProcessed := Some 1000 \<rparr>" 1999 2000]
    C3_isTransactionDue_iff [of
      "exampleTemplate\<lparr> nextRecurringDate := Some 2000, lastProcessed := Some 1000 \<rparr>" 2000 2000]
    C3_isTransactionDue_iff [of exampleTemplate 1999 0 "Some 2000"]
  by (simp add: exampleTemplate_def newDate_def)

text \<open>
  Claim C4 says that the balance changes by exactly the amount. The code converts the
  decimal amount to a number first: an expense of 2^53 + 1 = 9007199254740993 becomes
  9007199254740992, and the balance of its account goes from 0 to -9007199254740992.
\<close>

theorem C4_amount_beyond_double_counterexample:
  "transaction.amount bigTemplate = Some 9007199254740993
   \<and> type bigTemplate = ''EXPENSE''
   \<and> isTransactionDue bigTemplate 1000
   \<and> accounts bigStore ''a1'' = Some 0
   \<and> \<not> isl (processRecurringTransaction bigStore (Some ''t1'') (Some ''u1'') 1000 ''g1''
             ''COMPLETED'')
   \<and> accounts (projr (processRecurringTransaction bigStore (Some ''t1'') (Some ''u1'') 1000 ''g1''
         ''COMPLETED'')) ''a1'' = Some (- 9007199254740992)
   \<and> balanceChange bigTemplate = - 9007199254740992
   \<and> balanceChange bigTemplate \<noteq> - 9007199254740993"
  by (simp add: bigStore_process)
    (simp add: bigStore_def bigTemplate_def exampleTemplate_def isTransactionDue_def
      balanceChange_def amountValue_def toNumber_def double_big)

text \<open>
  Claim C4, amended. When a due transaction is processed, the balance of its account
  changes by \<open>- n\<close> for an EXPENSE and by \<open>+ n\<close> for an INCOME, where \<open>n\<close> is
  \<^verbatim>\<open>amount.toNumber()\<close>, the binary64 number nearest to the amount, and no other balance
  changes. \<open>n\<close> differs from the amount by at most one part in 2^53 and has its sign, so
  for a positive amount the change is negative for an EXPENSE and positive for an
  INCOME; when the amount is itself a binary64 number the change is exactly \<open>- amount\<close>
  or \<open>+ amount\<close>.
\<close>

theorem C4_balance_delta:
  assumes "tid \<noteq> []" "uid \<noteq> []"
    and "find (\<lambda>r. id' r = tid \<and> userId r = uid) (transactions st) = Some t"
    and "isTransactionDue t now"
    and "transaction.amount t = Some a"
    and "processRecurringTransaction st (Some tid) (Some uid) now newId defaultStatus = Inr st'"
  shows "(\<exists>balance. accounts st (accountId t) = Some balance
            \<and> accounts st' (accountId t) = Some (balance + balanceChange t))
       \<and> (\<forall>k. k \<noteq> accountId t \<longrightarrow> accounts st' k = accounts st k)
       \<and> (type t = ''EXPENSE'' \<longrightarrow> balanceChange t = - toNumber a)
       \<and> (type t = ''INCOME'' \<longrightarrow> balanceChange t = toNumber a)
       \<and> \<bar>balanceChange t\<bar> = \<bar>toNumber a\<bar>
       \<and> \<bar>toNumber a - a\<bar> \<le> \<bar>a\<bar> / 2 ^ 53
       \<and> (toNumber a = a \<longrightarrow> \<bar>balanceChange t\<bar> = \<bar>a\<bar>
             \<and> (type t = ''EXPENSE'' \<longrightarrow> balanceChange t = - a)
             \<and> (type t = ''INCOME'' \<longrightarrow> balanceChange t = a))
       \<and> (0 < a \<longrightarrow> (type t = ''EXPENSE'' \<longrightarrow> balanceChange t < 0)
                    \<and> (type t = ''INCOME'' \<longrightarrow> 0 < balanceChange t))"
proof -
  have ap: "applyRecurring st t now newId defaultStatus = Inr st'"
    using process_due [OF assms(1-4), of newId defaultStatus] assms(6) by simp
  then obtain balance where b: "accounts st (accountId t) = Some balance"
    and st': "st' = \<lparr> transactions =
             map (markProcessed (id' t) now (recurringInterval t))
               (transactions st @ [createdEntry t now newId defaultStatus]),
           accounts = (accounts st)(accountId t \<mapsto> balance + balanceChange t) \<rparr>"
    by (auto simp: applyRecurring_def split: if_splits option.splits)
  have v: "amountValue t = toNumber a" by (rule amountValue_Some [OF assms(5)])
  have 1: "(\<exists>balance. accounts st (accountId t) = Some balance
            \<and> accounts st' (accountId t) = Some (balance + balanceChange t))
       \<and> (\<forall>k. k \<noteq> accountId t \<longrightarrow> accounts st' k = accounts st k)"
    using b by (simp add: st')
  have 2: "(type t = ''EXPENSE'' \<longrightarrow> balanceChange t = - toNumber a)
       \<and> (type t = ''INCOME'' \<longrightarrow> balanceChange t = toNumber a)
       \<and> \<bar>balanceChange t\<bar> = \<bar>toNumber a\<bar>"
    by (simp add: balanceChange_def v)
  have 3: "\<bar>toNumber a - a\<bar> \<le> \<bar>a\<bar> / 2 ^ 53" by (rule toNumber_error)
  have 4: "0 < a \<longrightarrow> (type t = ''EXPENSE'' \<longrightarrow> balanceChange t < 0)
                    \<and> (type t = ''INCOME'' \<longrightarrow> 0 < balanceChange t)"
    using toNumber_positive [of a] by (simp add: balanceChange_def v)
  from 1 2 3 4 show ?thesis by simp
qed

text \<open>The example expense of 100, a binary64 number, takes the balance of its account from 500 to 400.\<close>

theorem C4_balance_delta_witness:
  "''t1'' \<noteq> [] \<and> ''u1'' \<noteq> []
   \<and> find (\<lambda>r. id' r = ''t1'' \<and> userId r = ''u1'') (transactions exampleStore) = Some exampleTemplate
   \<and> isTransactionDue exampleTemplate 1000
   \<and> transaction.amount exampleTemplate = Some 100
   \<and> processRecurringTransaction exampleStore (Some ''t1'') (Some ''u1'') 1000 ''g1'' ''COMPLETED''
       = Inr exampleAfter
   \<and> type exampleTemplate = ''EXPENSE''
   \<and> toNumber 100 = 100
   \<and> balanceChange exampleTemplate = - 100
   \<and> accounts exampleStore ''a1'' = Some 500
   \<and> accounts exampleAfter ''a1'' = Some (500 + balanceChange exampleTemplate)"
proof -
  have h: "''t1'' \<noteq> []" "''u1'' \<noteq> []"
    "find (\<lambda>r. id' r = ''t1'' \<and> userId r = ''u1'') (transactions exampleStore) = Some exampleTemplate"
    "isTransactionDue exampleTemplate 1000"
    "transaction.amount exampleTemplate = Some 100"
    by (simp_all add: exampleStore_def exampleTemplate_def isTransactionDue_def)
  have e: "type exampleTemplate = ''EXPENSE''" "accountId exampleTemplate = ''a1''"
    "accounts exampleStore ''a1'' = Some 500"
    by (simp_all add: exampleStore_def exampleTemplate_def)
  from C4_balance_delta [OF h exampleStore_process'] h e exampleStore_process' toNumber_100
  show ?thesis by auto
qed

text \<open>
  Claim C5. After a due transaction is processed at \<open>now\<close>, the stored row of the
  transaction has \<open>lastProcessed = now\<close> and a \<open>nextRecurringDate\<close> that is \<open>now\<close> plus one
  unit of its interval. DAILY adds one day and WEEKLY seven days. MONTHLY and YEARLY keep
  the time of day and move the calendar date by one month or one year: the year, month
  and date of the result are those of \<open>now\<close> with the month (or year) stepped, and a date
  past the end of the target month overflows into the month after it (31 January 2024
  gives 2 March 2024, 29 February 2024 gives 1 March 2025).
\<close>

theorem C5_next_date_adds_one_unit:
  assumes "tid \<noteq> []" "uid \<noteq> []"
    and "find (\<lambda>r. id' r = tid \<and> userId r = uid) (transactions st) = Some t"
    and "isTransactionDue t now"
    and "processRecurringTransaction st (Some tid) (Some uid) now newId defaultStatus = Inr st'"
  shows "\<exists>r d. find (\<lambda>r. id' r = tid \<and> userId r = uid) (transactions st') = Some r
           \<and> lastProcessed r = Some now
           \<and> nextRecurringDate r = Some d
           \<and> d = calculateNextRecurringDate now (recurringInterval t)
           \<and> (recurringInterval t = Some ''DAILY'' \<longrightarrow> d = now + msPerDay)
           \<and> (recurringInterval t = Some ''WEEKLY'' \<longrightarrow> d = now + 7 * msPerDay)
           \<and> (recurringInterval t = Some ''MONTHLY'' \<longrightarrow>
                 civil d = plusOneMonth (civil now) \<and> TimeWithinDay d = TimeWithinDay now)
           \<and> (recurringInterval t = Some ''YEARLY'' \<longrightarrow>
                 civil d = plusOneYear (civil now) \<and> TimeWithinDay d = TimeWithinDay now)"
proof -
  let ?d = "calculateNextRecurringDate now (recurringInterval t)"
  let ?r = "t\<lparr> lastProcessed := Some now, nextRecurringDate := Some ?d \<rparr>"
  have f: "find (\<lambda>r. id' r = tid \<and> userId r = uid) (transactions st') = Some ?r"
    by (rule process_template_row [OF assms])
  have u: "(recurringInterval t = Some ''DAILY'' \<longrightarrow> ?d = now + msPerDay)
      \<and> (recurringInterval t = Some ''WEEKLY'' \<longrightarrow> ?d = now + 7 * msPerDay)
      \<and> (recurringInterval t = Some ''MONTHLY'' \<longrightarrow>
            civil ?d = plusOneMonth (civil now) \<and> TimeWithinDay ?d = TimeWithinDay now)
      \<and> (recurringInterval t = Some ''YEARLY'' \<longrightarrow>
            civil ?d = plusOneYear (civil now) \<and> TimeWithinDay ?d = TimeWithinDay now)"
    by (simp add: calc_DAILY calc_WEEKLY civil_calc_MONTHLY civil_calc_YEARLY TimeWithinDay_calc)
  show ?thesis
    by (rule exI [of _ ?r], rule exI [of _ ?d]) (use f u in simp)
qed

text \<open>
  The monthly template processed on 1 March 2024: its stored row is next due on 1 April
  2024, at the same time of day.
\<close>

theorem C5_next_date_adds_one_unit_witness:
  "''t1'' \<noteq> [] \<and> ''u1'' \<noteq> []
   \<and> find (\<lambda>r. id' r = ''t1'' \<and> userId r = ''u1'') (transactions monthlyStore) = Some monthlyTemplate
   \<and> isTransactionDue monthlyTemplate (DateUTC 2024 2 1)
   \<and> recurringInterval monthlyTemplate = Some ''MONTHLY''
   \<and> (\<exists>st'. processRecurringTransaction monthlyStore (Some ''t1'') (Some ''u1'') (DateUTC 2024 2 1)
               ''g1'' ''COMPLETED'' = Inr st'
          \<and> (\<exists>r d. find (\<lambda>r. id' r = ''t1'' \<and> userId r = ''u1'') (transactions st') = Some r
                \<and> lastProcessed r = Some (DateUTC 2024 2 1)
                \<and> nextRecurringDate r = Some d
                \<and> d = DateUTC 2024 3 1
                \<and> civil d = (2024, 3, 1)
                \<and> TimeWithinDay d = 0))"
proof -
  have h: "''t1'' \<noteq> []" "''u1'' \<noteq> []"
    "find (\<lambda>r. id' r = ''t1'' \<and> userId r = ''u1'') (transactions monthlyStore) = Some monthlyTemplate"
    "isTransactionDue monthlyTemplate (DateUTC 2024 2 1)"
    by (simp_all add: monthlyStore_def monthlyTemplate_def exampleTemplate_def isTransactionDue_def)
  have i: "recurringInterval monthlyTemplate = Some ''MONTHLY''"
    by (simp add: monthlyTemplate_def)
  have c: "civil (DateUTC 2024 2 1) = (2024, 2, 1)" "TimeWithinDay (DateUTC 2024 2 1) = 0"
    by (simp_all add: civil_def civil_DateUTC month_lengths)
  from C5_next_date_adds_one_unit [OF h monthlyStore_process]
  obtain r d where r: "find (\<lambda>r. id' r = ''t1'' \<and> userId r = ''u1'')
        (transactions \<lparr> transactions =
             [monthlyTemplate\<lparr> lastProcessed := Some (DateUTC 2024 2 1),
                nextRecurringDate := Some (DateUTC 2024 3 1) \<rparr>,
              createdEntry monthlyTemplate (DateUTC 2024 2 1) ''g1'' ''COMPLETED''],
           accounts = [''a1'' \<mapsto> 400] \<rparr>) = Some r"
    "lastProcessed r = Some (DateUTC 2024 2 1)" "nextRecurringDate r = Some d"
    "civil d = plusOneMonth (civil (DateUTC 2024 2 1))"
    "TimeWithinDay d = TimeWithinDay (DateUTC 2024 2 1)"
    using i by auto
  have d: "d = DateUTC 2024 3 1"
    using r(1,3) by (auto simp: monthlyTemplate_def exampleTemplate_def)
  have "civil d = (2024, 3, 1)" "TimeWithinDay d = 0"
    using r(4,5) c by (simp_all add: plusOneMonth_def carryDate_def month_lengths)
  with r d h i monthlyStore_process show ?thesis by auto
qed

text \<open>
  Claim C6. For each of the four intervals and every start date, the dates obtained by
  applying the computation again and again increase strictly, and consecutive dates are
  one unit apart: a day, seven days, one calendar month or one calendar year. From a
  start on the 28th of a month or earlier, \<open>k\<close> monthly steps are the same date \<open>k\<close> months
  later; from any start but a 29 February, \<open>k\<close> yearly steps are the same date \<open>k\<close> years
  later. Twelve monthly steps from 15 January 2024 give 15 January 2025.
\<close>

theorem C6_iterated_dates_increase:
  "(interval \<in> {Some ''DAILY'', Some ''WEEKLY'', Some ''MONTHLY'', Some ''YEARLY''} \<longrightarrow>
      (\<forall>j k. j < k \<longrightarrow> nextDates interval start j < nextDates interval start k))
   \<and> nextDates (Some ''DAILY'') start k = start + int k * msPerDay
   \<and> nextDates (Some ''WEEKLY'') start k = start + 7 * int k * msPerDay
   \<and> civil (nextDates (Some ''MONTHLY'') start (Suc k))
       = plusOneMonth (civil (nextDates (Some ''MONTHLY'') start k))
   \<and> civil (nextDates (Some ''YEARLY'') start (Suc k))
       = plusOneYear (civil (nextDates (Some ''YEARLY'') start k))
   \<and> (getDate start \<le> 28 \<longrightarrow>
        nextDates (Some ''MONTHLY'') start k = setMonth start (getMonth start + int k)
        \<and> civil (nextDates (Some ''MONTHLY'') start k)
            = (getFullYear start + (getMonth start + int k) div 12,
               (getMonth start + int k) mod 12, getDate start))
   \<and> (\<not> (getMonth start = 1 \<and> getDate start = 29) \<longrightarrow>
        nextDates (Some ''YEARLY'') start k = setFullYear start (getFullYear start + int k)
        \<and> civil (nextDates (Some ''YEARLY'') start k)
            = (getFullYear start + int k, getMonth start, getDate start))
   \<and> nextDates (Some ''MONTHLY'') (DateUTC 2024 0 15) 12 = DateUTC 2025 0 15"
proof (intro conjI impI allI)
  show "nextDates interval start j < nextDates interval start k"
    if "interval \<in> {Some ''DAILY'', Some ''WEEKLY'', Some ''MONTHLY'', Some ''YEARLY''}" "j < k" for j k
    using that by (rule nextDates_strict_mono)
  show "nextDates (Some ''DAILY'') start k = start + int k * msPerDay"
    by (rule nextDates_DAILY)
  show "nextDates (Some ''WEEKLY'') start k = start + 7 * int k * msPerDay"
    by (rule nextDates_WEEKLY)
  show "civil (nextDates (Some ''MONTHLY'') start (Suc k))
       = plusOneMonth (civil (nextDates (Some ''MONTHLY'') start k))"
    by (simp add: nextDates_Suc civil_calc_MONTHLY)
  show "civil (nextDates (Some ''YEARLY'') start (Suc k))
       = plusOneYear (civil (nextDates (Some ''YEARLY'') start k))"
    by (simp add: nextDates_Suc civil_calc_YEARLY)
  show "nextDates (Some ''MONTHLY'') start k = setMonth start (getMonth start + int k)"
    if "getDate start \<le> 28" using that by (rule nextDates_setMonth)
  show "civil (nextDates (Some ''MONTHLY'') start k)
            = (getFullYear start + (getMonth start + int k) div 12,
               (getMonth start + int k) mod 12, getDate start)"
    if "getDate start \<le> 28" using that by (rule civil_nextDates_MONTHLY)
  show "nextDates (Some ''YEARLY'') start k = setFullYear start (getFullYear start + int k)"
    if "\<not> (getMonth start = 1 \<and> getDate start = 29)" using that by (rule nextDates_setFullYear)
  show "civil (nextDates (Some ''YEARLY'') start k)
            = (getFullYear start + int k, getMonth start, getDate start)"
    if "\<not> (getMonth start = 1 \<and> getDate start = 29)" using that by (rule civil_nextDates_YEARLY)
  show "nextDates (Some ''MONTHLY'') (DateUTC 2024 0 15) 12 = DateUTC 2025 0 15"
    by (rule monthly_twelve)
qed

text \<open>From 15 January 2024: step 11 is before step 12, which is 15 January 2025; three yearly steps give 15 January 2027.\<close>

theorem C6_iterated_dates_increase_witness:
  "Some ''MONTHLY'' \<in> {Some ''DAILY'', Some ''WEEKLY'', Some ''MONTHLY'', Some ''YEARLY''}
   \<and> (11::nat) < 12
   \<and> nextDates (Some ''MONTHLY'') (DateUTC 2024 0 15) 11
       < nextDates (Some ''MONTHLY'') (DateUTC 2024 0 15) 12
   \<and> getDate (DateUTC 2024 0 15) \<le> 28
   \<and> civil (nextDates (Some ''MONTHLY'') (DateUTC 2024 0 15) 12) = (2025, 0, 15)
   \<and> \<not> (getMonth (DateUTC 2024 0 15) = 1 \<and> getDate (DateUTC 2024 0 15) = 29)
   \<and> civil (nextDates (Some ''YEARLY'') (DateUTC 2024 0 15) 3) = (2027, 0, 15)"
proof -
  have i: "Some ''MONTHLY'' \<in> {Some ''DAILY'', Some ''WEEKLY'', Some ''MONTHLY'', Some ''YEARLY''}"
    by simp
  have c: "getFullYear (DateUTC 2024 0 15) = 2024" "getMonth (DateUTC 2024 0 15) = 0"
    "getDate (DateUTC 2024 0 15) = 15"
    by (simp_all add: civil_DateUTC month_lengths)
  have lt: "(11::nat) < 12" by simp
  have d: "getDate (DateUTC 2024 0 15) \<le> 28"
    and n: "\<not> (getMonth (DateUTC 2024 0 15) = 1 \<and> getDate (DateUTC 2024 0 15) = 29)"
    by (simp_all add: c)
  have "nextDates (Some ''MONTHLY'') (DateUTC 2024 0 15) 11
       < nextDates (Some ''MONTHLY'') (DateUTC 2024 0 15) 12"
    using C6_iterated_dates_increase [of "Some ''MONTHLY''" "DateUTC 2024 0 15" 12] i lt by blast
  moreover have "civil (nextDates (Some ''MONTHLY'') (DateUTC 2024 0 15) 12)
      = (getFullYear (DateUTC 2024 0 15) + (getMonth (DateUTC 2024 0 15) + int 12) div 12,
         (getMonth (DateUTC 2024 0 15) + int 12) mod 12, getDate (DateUTC 2024 0 15))"
    using C6_iterated_dates_increase [of "Some ''MONTHLY''" "DateUTC 2024 0 15" 12] d by blast
  moreover have "civil (nextDates (Some ''YEARLY'') (DateUTC 2024 0 15) 3)
      = (getFullYear (DateUTC 2024 0 15) + int 3, getMonth (DateUTC 2024 0 15),
         getDate (DateUTC 2024 0 15))"
    using C6_iterated_dates_increase [of "Some ''MONTHLY''" "DateUTC 2024 0 15" 3] n by blast
  ultimately show ?thesis
    using i d n by (simp add: c)
qed

text \<open>
  Claim C7. A check that sends the alert sets \<open>lastAlertSent\<close> to its instant, and a check
  that does not leaves the budget as it is. Then, for every budget and every run of
  checks at instants that do not decrease, no two alerts are sent in the same (month,
  year); and as long as \<open>lastAlertSent\<close> stays at an instant \<open>t\<close>, no check at an instant
  in the (month, year) of \<open>t\<close> sends an alert, whatever the expense sum.
\<close>

theorem C7_one_alert_per_month:
  "(sorted (map snd invs) \<longrightarrow>
      distinct (map (\<lambda>t. (getMonth t, getFullYear t)) (alertsFired b invs)))
   \<and> ((getMonth u, getFullYear u) = (getMonth t, getFullYear t) \<longrightarrow>
        \<not> evaluateBudget (b\<lparr> lastAlertSent := Some t \<rparr>) s u)
   \<and> (fst (checkBudget b s now) \<longrightarrow> snd (checkBudget b s now) = b\<lparr> lastAlertSent := Some now \<rparr>)
   \<and> (\<not> fst (checkBudget b s now) \<longrightarrow> snd (checkBudget b s now) = b)
   \<and> fst (checkBudget b s now) = evaluateBudget b s now"
proof (intro conjI impI)
  show "distinct (map (\<lambda>t. (getMonth t, getFullYear t)) (alertsFired b invs))"
    if "sorted (map snd invs)"
    by (rule distinct_months [OF alertsFired_months_increase [OF that]])
  show "\<not> evaluateBudget (b\<lparr> lastAlertSent := Some t \<rparr>) s u"
    if "(getMonth u, getFullYear u) = (getMonth t, getFullYear t)"
    using that by (rule evaluateBudget_same_month)
  show "snd (checkBudget b s now) = b\<lparr> lastAlertSent := Some now \<rparr>" if "fst (checkBudget b s now)"
    using that by (simp add: checkBudget_def split: if_splits)
  show "snd (checkBudget b s now) = b" if "\<not> fst (checkBudget b s now)"
    using that by (simp add: checkBudget_def split: if_splits)
  show "fst (checkBudget b s now) = evaluateBudget b s now"
    by (simp add: checkBudget_def)
qed

text \<open>
  Checks on 15 March, 20 March and 2 April 2024, all above 80 percent: the alerts are
  those of 15 March and 2 April.
\<close>

theorem C7_one_alert_per_month_witness:
  "sorted (map snd exampleChecks)
   \<and> alertsFired \<lparr> budget.amount = 1000, lastAlertSent = None \<rparr> exampleChecks
       = [DateUTC 2024 2 15, DateUTC 2024 3 2]
   \<and> distinct (map (\<lambda>t. (getMonth t, getFullYear t))
        (alertsFired \<lparr> budget.amount = 1000, lastAlertSent = None \<rparr> exampleChecks))
   \<and> (getMonth (DateUTC 2024 2 20), getFullYear (DateUTC 2024 2 20))
       = (getMonth (DateUTC 2024 2 15), getFullYear (DateUTC 2024 2 15))
   \<and> \<not> evaluateBudget
         (\<lparr> budget.amount = 1000, lastAlertSent = None \<rparr>\<lparr> lastAlertSent := Some (DateUTC 2024 2 15) \<rparr>)
         (Some 900) (DateUTC 2024 2 20)
   \<and> fst (checkBudget \<lparr> budget.amount = 1000, lastAlertSent = None \<rparr> (Some 850) (DateUTC 2024 2 15))
   \<and> snd (checkBudget \<lparr> budget.amount = 1000, lastAlertSent = None \<rparr> (Some 850) (DateUTC 2024 2 15))
       = \<lparr> budget.amount = 1000, lastAlertSent = Some (DateUTC 2024 2 15) \<rparr>"
proof -
  let ?b = "\<lparr> budget.amount = 1000, lastAlertSent = None \<rparr>"
  have m: "(getMonth (DateUTC 2024 2 20), getFullYear (DateUTC 2024 2 20))
       = (getMonth (DateUTC 2024 2 15), getFullYear (DateUTC 2024 2 15))"
    by (simp add: civil_DateUTC month_lengths)
  have f: "fst (checkBudget ?b (Some 850) (DateUTC 2024 2 15))"
    by (simp add: checkBudget_def evaluateBudget_def percentage_850_of_1000 js_ge_def)
  note T = C7_one_alert_per_month [of exampleChecks ?b "DateUTC 2024 2 20" "DateUTC 2024 2 15"
      "Some 900" "DateUTC 2024 2 15"]
  note T' = C7_one_alert_per_month [of exampleChecks ?b "DateUTC 2024 2 20" "DateUTC 2024 2 15"
      "Some 850" "DateUTC 2024 2 15"]
  have "distinct (map (\<lambda>t. (getMonth t, getFullYear t)) (alertsFired ?b exampleChecks))"
    using T exampleChecks_sorted by blast
  moreover have "\<not> evaluateBudget (?b\<lparr> lastAlertSent := Some (DateUTC 2024 2 15) \<rparr>)
         (Some 900) (DateUTC 2024 2 20)"
    using T m by blast
  moreover have "snd (checkBudget ?b (Some 850) (DateUTC 2024 2 15))
       = ?b\<lparr> lastAlertSent := Some (DateUTC 2024 2 15) \<rparr>"
    using T' f by blast
  ultimately show ?thesis
    using exampleChecks_sorted exampleChecks_fired m f by simp
qed

text \<open>
  Claim C8. The query of the daily trigger returns exactly the stored transactions with
  \<open>isRecurring\<close> true, status COMPLETED, and \<open>lastProcessed\<close> absent or
  \<open>nextRecurringDate\<close> not after \<open>now\<close>, in the order of the store; the trigger sends one
  event for each and leaves the store as it is.
\<close>

theorem C8_fetch_selects_due:
  "set (fetchRecurringTransactions st now) =
     {t \<in> set (transactions st). isRecurring t \<and> status t = ''COMPLETED''
        \<and> (lastProcessed t = None \<or> (\<exists>d. nextRecurringDate t = Some d \<and> d \<le> now))}
   \<and> fetchRecurringTransactions st now =
       filter (\<lambda>t. isRecurring t \<and> status t = ''COMPLETED''
                \<and> (lastProcessed t = None \<or> (\<exists>d. nextRecurringDate t = Some d \<and> d \<le> now)))
         (transactions st)
   \<and> fst (triggerRecurringTransactions st now) = st
   \<and> fst (snd (triggerRecurringTransactions st now)) =
       map (\<lambda>t. (''transaction.recurring.process'', id' t, userId t))
         (fetchRecurringTransactions st now)
   \<and> snd (snd (triggerRecurringTransactions st now)) = length (fetchRecurringTransactions st now)"
proof (intro conjI)
  show "set (fetchRecurringTransactions st now) =
     {t \<in> set (transactions st). isRecurring t \<and> status t = ''COMPLETED''
        \<and> (lastProcessed t = None \<or> (\<exists>d. nextRecurringDate t = Some d \<and> d \<le> now))}"
    by (rule fetch_set)
  have "dueFilter now = (\<lambda>t. isRecurring t \<and> status t = ''COMPLETED''
                \<and> (lastProcessed t = None \<or> (\<exists>d. nextRecurringDate t = Some d \<and> d \<le> now)))"
    by (auto simp: dueFilter_def fun_eq_iff split: option.splits)
  then show "fetchRecurringTransactions st now =
       filter (\<lambda>t. isRecurring t \<and> status t = ''COMPLETED''
                \<and> (lastProcessed t = None \<or> (\<exists>d. nextRecurringDate t = Some d \<and> d \<le> now)))
         (transactions st)"
    by (simp add: fetchRecurringTransactions_def)
  show "fst (triggerRecurringTransactions st now) = st"
    by (simp add: triggerRecurringTransactions_def Let_def)
  show "fst (snd (triggerRecurringTransactions st now)) =
       map (\<lambda>t. (''transaction.recurring.process'', id' t, userId t))
         (fetchRecurringTransactions st now)"
    by (simp add: triggerRecurringTransactions_def Let_def)
  show "snd (snd (triggerRecurringTransactions st now)) = length (fetchRecurringTransactions st now)"
    by (simp add: triggerRecurringTransactions_def Let_def)
qed

text \<open>
  Of five rows at instant 1500, the row never processed and the row next due at 1500 are
  selected; the row next due at 2000, the row that is not recurring and the row that is
  not COMPLETED are not.
\<close>

theorem C8_fetch_selects_due_witness:
  "fetchRecurringTransactions
     \<lparr> transactions =
         [exampleTemplate,
          exampleTemplate\<lparr> id' := ''t2'', lastProcessed := Some 1000, nextRecurringDate := Some 2000 \<rparr>,
          exampleTemplate\<lparr> id' := ''t3'', lastProcessed := Some 1000, nextRecurringDate := Some 1500 \<rparr>,
          exampleTemplate\<lparr> id' := ''t4'', isRecurring := False \<rparr>,
          exampleTemplate\<lparr> id' := ''t5'', status := ''PENDING'' \<rparr>],
       accounts = Map.empty \<rparr> 1500
   = [exampleTemplate,
      exampleTemplate\<lparr> id' := ''t3'', lastProcessed := Some 1000, nextRecurringDate := Some 1500 \<rparr>]"
  using C8_fetch_selects_due [of
     "\<lparr> transactions =
         [exampleTemplate,
          exampleTemplate\<lparr> id' := ''t2'', lastProcessed := Some 1000, nextRecurringDate := Some 2000 \<rparr>,
          exampleTemplate\<lparr> id' := ''t3'', lastProcessed := Some 1000, nextRecurringDate := Some 1500 \<rparr>,
          exampleTemplate\<lparr> id' := ''t4'', isRecurring := False \<rparr>,
          exampleTemplate\<lparr> id' := ''t5'', status := ''PENDING'' \<rparr>],
       accounts = Map.empty \<rparr>" 1500]
  by (simp add: exampleTemplate_def)

text \<open>
  Claim C9 says that a due transaction whose interval is none of the four is skipped with
  no mutation. The example template has the interval \<^verbatim>\<open>null\<close>; processing it creates
  the ledger entry, takes 100 from the account and marks the template processed.
\<close>

theorem C9_malformed_interval_counterexample:
  "recurringInterval exampleTemplate
     \<notin> {Some ''DAILY'', Some ''WEEKLY'', Some ''MONTHLY'', Some ''YEARLY''}
   \<and> isTransactionDue exampleTemplate 1000
   \<and> processRecurringTransaction exampleStore (Some ''t1'') (Some ''u1'') 1000 ''g1'' ''COMPLETED''
       = Inr exampleAfter
   \<and> exampleAfter \<noteq> exampleStore
   \<and> accounts exampleStore ''a1'' = Some 500
   \<and> accounts exampleAfter ''a1'' = Some 400
   \<and> length (transactions exampleStore) = 1
   \<and> length (transactions exampleAfter) = 2"
  using exampleStore_process' exampleAfter_differs
  by (simp add: exampleTemplate_def isTransactionDue_def exampleStore_def exampleAfter_def)

text \<open>
  Claim C9, amended. A due transaction whose interval is none of DAILY, WEEKLY, MONTHLY
  and YEARLY is processed like any other and without an error: the ledger entry is
  created, the balance changes, \<open>lastProcessed\<close> becomes \<open>now\<close>, and \<open>nextRecurringDate\<close>
  becomes \<open>now\<close> itself, since no interval is added.
\<close>

theorem C9_malformed_interval_still_processed:
  assumes "tid \<noteq> []" "uid \<noteq> []"
    and "find (\<lambda>r. id' r = tid \<and> userId r = uid) (transactions st) = Some t"
    and "isTransactionDue t now"
    and "recurringInterval t \<notin> {Some ''DAILY'', Some ''WEEKLY'', Some ''MONTHLY'', Some ''YEARLY''}"
    and "newId \<notin> id' ` set (transactions st)"
    and "accounts st (accountId t) = Some balance"
  shows "processRecurringTransaction st (Some tid) (Some uid) now newId defaultStatus =
     Inr \<lparr> transactions =
             map (\<lambda>r. if id' r = id' t
                       then r\<lparr> lastProcessed := Some now, nextRecurringDate := Some now \<rparr>
                       else r)
               (transactions st @ [createdEntry t now newId defaultStatus]),
           accounts = (accounts st)(accountId t \<mapsto> balance + balanceChange t) \<rparr>"
proof -
  have "markProcessed (id' t) now (recurringInterval t) =
      (\<lambda>r. if id' r = id' t
            then r\<lparr> lastProcessed := Some now, nextRecurringDate := Some now \<rparr> else r)"
    using calc_other [OF assms(5), of now] by (simp add: markProcessed_def fun_eq_iff)
  then show ?thesis
    using process_due [OF assms(1-4), of newId defaultStatus]
      applyRecurring_success [OF assms(6,7), of now defaultStatus]
    by simp
qed

text \<open>The example template, whose interval is \<^verbatim>\<open>null\<close>, processed at instant 1000.\<close>

theorem C9_malformed_interval_still_processed_witness:
  "''t1'' \<noteq> [] \<and> ''u1'' \<noteq> []
   \<and> find (\<lambda>r. id' r = ''t1'' \<and> userId r = ''u1'') (transactions exampleStore) = Some exampleTemplate
   \<and> isTransactionDue exampleTemplate 1000
   \<and> recurringInterval exampleTemplate
       \<notin> {Some ''DAILY'', Some ''WEEKLY'', Some ''MONTHLY'', Some ''YEARLY''}
   \<and> ''g1'' \<notin> id' ` set (transactions exampleStore)
   \<and> accounts exampleStore (accountId exampleTemplate) = Some 500
   \<and> processRecurringTransaction exampleStore (Some ''t1'') (Some ''u1'') 1000 ''g1'' ''COMPLETED''
       = Inr exampleAfter"
proof -
  have h: "''t1'' \<noteq> []" "''u1'' \<noteq> []"
    "find (\<lambda>r. id' r = ''t1'' \<and> userId r = ''u1'') (transactions exampleStore) = Some exampleTemplate"
    "isTransactionDue exampleTemplate 1000"
    "recurringInterval exampleTemplate
       \<notin> {Some ''DAILY'', Some ''WEEKLY'', Some ''MONTHLY'', Some ''YEARLY''}"
    "''g1'' \<notin> id' ` set (transactions exampleStore)"
    "accounts exampleStore (accountId exampleTemplate) = Some 500"
    by (simp_all add: exampleStore_def exampleTemplate_def isTransactionDue_def)
  have "processRecurringTransaction exampleStore (Some ''t1'') (Some ''u1'') 1000 ''g1'' ''COMPLETED''
       = Inr exampleAfter"
    unfolding C9_malformed_interval_still_processed [OF h, of "''COMPLETED''"]
    by (simp add: exampleStore_def exampleTemplate_def exampleAfter_def createdEntry_def
        recurringDescription_def balanceChange_def amountValue_def toNumber_100)
  with h show ?thesis by simp
qed

text \<open>
  Claim C10. Every ledger entry that processing creates has \<open>isRecurring\<close> false. In every
  store reachable by runs of the handler and of the trigger, the rows created by those
  runs are not recurring, are not selected by the query of the trigger, and no event of
  the trigger names one of them: a firing does not breed further firings.
\<close>

theorem C10_generated_entries_not_recurring:
  "\<not> isRecurring (createdEntry t now newId defaultStatus)
   \<and> (reach st0 st G \<longrightarrow>
        (\<forall>r \<in> set (transactions st). id' r \<in> G \<longrightarrow>
            \<not> isRecurring r \<and> r \<notin> set (fetchRecurringTransactions st now'))
        \<and> (\<forall>e \<in> set (fst (snd (triggerRecurringTransactions st now'))). fst (snd e) \<notin> G))"
proof (intro conjI impI)
  show "\<not> isRecurring (createdEntry t now newId defaultStatus)"
    by (simp add: createdEntry_def)
  assume r: "reach st0 st G"
  note inv = reach_generated_not_recurring [OF r]
  show "\<forall>r \<in> set (transactions st). id' r \<in> G \<longrightarrow>
            \<not> isRecurring r \<and> r \<notin> set (fetchRecurringTransactions st now')"
    using inv by (auto simp: fetch_set)
  show "\<forall>e \<in> set (fst (snd (triggerRecurringTransactions st now'))). fst (snd e) \<notin> G"
    using inv by (auto simp: triggerRecurringTransactions_def Let_def fetch_set)
qed

text \<open>
  After the example template is processed, the created row \<open>g1\<close> is not selected; the
  trigger sends one event, for the template.
\<close>

theorem C10_generated_entries_not_recurring_witness:
  "reach exampleStore exampleAfter {''g1''}
   \<and> last (transactions exampleAfter) \<in> set (transactions exampleAfter)
   \<and> id' (last (transactions exampleAfter)) \<in> {''g1''}
   \<and> \<not> isRecurring (last (transactions exampleAfter))
   \<and> last (transactions exampleAfter) \<notin> set (fetchRecurringTransactions exampleAfter 5000)
   \<and> fst (snd (triggerRecurringTransactions exampleAfter 5000))
       = [(''transaction.recurring.process'', ''t1'', ''u1'')]"
proof -
  have "reach exampleStore exampleAfter
      ({} \<union> (id' ` set (transactions exampleAfter) - id' ` set (transactions exampleStore)))"
    by (rule reach_process [OF reach_init exampleStore_process'])
  moreover have "{} \<union> (id' ` set (transactions exampleAfter) - id' ` set (transactions exampleStore))
      = {''g1''}"
    by (auto simp: exampleAfter_def exampleStore_def exampleTemplate_def)
  ultimately have r: "reach exampleStore exampleAfter {''g1''}" by simp
  have g: "last (transactions exampleAfter) \<in> set (transactions exampleAfter)"
    "id' (last (transactions exampleAfter)) \<in> {''g1''}"
    by (simp_all add: exampleAfter_def)
  have e: "fst (snd (triggerRecurringTransactions exampleAfter 5000))
       = [(''transaction.recurring.process'', ''t1'', ''u1'')]"
    by (simp add: triggerRecurringTransactions_def fetchRecurringTransactions_def dueFilter_def
        exampleAfter_def exampleTemplate_def)
  from C10_generated_entries_not_recurring [of exampleTemplate 0 "''g1''" "''COMPLETED''"
      exampleStore exampleAfter "{''g1''}" 5000] r g
  have "\<not> isRecurring (last (transactions exampleAfter))
      \<and> last (transactions exampleAfter) \<notin> set (fetchRecurringTransactions exampleAfter 5000)"
    by blast
  with r g e show ?thesis by simp
qed

end
